theory Spec2Isabelle
  imports Main "HOL-Library.Monad_Syntax" "HOL-Library.Multiset"
begin

section \<open>Machine integers, arrays and the environment\<close>

text \<open>
  All sizes and indices of the C sources are \<open>uint64_t\<close>. They are modelled as \<open>nat\<close>;
  where the source computes a product or a difference the wrap-around modulo \<open>2^64\<close> is
  written out (\<open>u64\<close>, \<open>u64_sub\<close>). A loop index that is incremented below a bound that
  is itself a \<open>uint64_t\<close> cannot wrap and is left as it is.
\<close>

definition u64 :: "nat \<Rightarrow> nat" where
  "u64 n = n mod 2 ^ 64"

definition u64_sub :: "nat \<Rightarrow> nat \<Rightarrow> nat" where
  "u64_sub a b = (a mod 2 ^ 64 + 2 ^ 64 - b mod 2 ^ 64) mod 2 ^ 64"

definition u32 :: "nat \<Rightarrow> nat" where
  "u32 n = n mod 2 ^ 32"

text \<open>
  A heap array is the list of its cells; its allocated size is the length of the list.
  Reading or writing outside the array is undefined behaviour in C: in the model it is a
  fault, the value \<open>None\<close>, and a fault ends the whole computation.
\<close>

definition rd :: "'a list \<Rightarrow> nat \<Rightarrow> 'a option" where
  "rd xs i = (if i < length xs then Some (xs ! i) else None)"

definition wr :: "'a list \<Rightarrow> nat \<Rightarrow> 'a \<Rightarrow> 'a list option" where
  "wr xs i v = (if i < length xs then Some (xs[i := v]) else None)"

text \<open>\<open>for (i = lo; i < hi; i++) body\<close> runs the body over \<open>[lo..<hi]\<close>, in order.\<close>

fun for_loop :: "nat list \<Rightarrow> (nat \<Rightarrow> 's \<Rightarrow> 's option) \<Rightarrow> 's \<Rightarrow> 's option" where
  "for_loop [] body s = Some s"
| "for_loop (i # is) body s =
     (case body i s of None \<Rightarrow> None | Some s' \<Rightarrow> for_loop is body s')"

text \<open>
  What the sources take from their environment: whether a request for \<open>n\<close> bytes is
  granted (\<open>malloc\<close>, \<open>calloc\<close>, \<open>realloc\<close>), what a cell of fresh \<open>malloc\<close> memory holds,
  \<open>get_nprocs()\<close>, \<open>__builtin_cpu_supports("avx")\<close>, and whether \<open>pthread_create\<close>
  succeeds for the worker with a given index.
\<close>

record 'a env =
  avail :: "nat \<Rightarrow> bool"
  fresh_u64 :: "nat \<Rightarrow> nat"
  fresh_float :: "nat \<Rightarrow> 'a"
  nprocs :: nat
  cpu_avx :: bool
  thread_ok :: "nat \<Rightarrow> bool"

text \<open>\<open>malloc_safe(a, b)\<close> (utils.h): NULL when \<open>a * b\<close> overflows, else \<open>malloc(a * b)\<close>.\<close>

definition malloc_safe :: "'a env \<Rightarrow> nat \<Rightarrow> nat \<Rightarrow> bool" where
  "malloc_safe env element_size num_elements =
     (if element_size * num_elements \<ge> 2 ^ 64 then False
      else avail env (element_size * num_elements))"

text \<open>\<open>calloc(n, size)\<close>: NULL when \<open>n * size\<close> cannot be represented or is not granted.\<close>

definition calloc :: "'a env \<Rightarrow> nat \<Rightarrow> nat \<Rightarrow> bool" where
  "calloc env n sz = (n * sz < 2 ^ 64 \<and> avail env (n * sz))"

section \<open>The CSR matrix (csrmatrix.h)\<close>

record 'a Matrix =
  noRows :: nat
  noCols :: nat
  "values" :: "'a list"
  valuesSize :: nat
  colIndices :: "nat list"
  rowPointers :: "nat list"
  rowPointersSize :: nat

text \<open>
  The result handle is the same C struct, as the caller passes it: its three array fields
  are pointers that may be NULL (\<open>None\<close>) or point to an array.
\<close>

record 'a Handle =
  h_noRows :: nat
  h_noCols :: nat
  h_values :: "'a list option"
  h_valuesSize :: nat
  h_colIndices :: "nat list option"
  h_rowPointers :: "nat list option"
  h_rowPointersSize :: nat

text \<open>Dereferencing the arrays of a handle; a NULL array is a fault.\<close>

definition deref :: "'a Handle \<Rightarrow> 'a Matrix option" where
  "deref h =
     (case (h_values h, h_colIndices h, h_rowPointers h) of
        (Some vs, Some cs, Some rp) \<Rightarrow>
          Some \<lparr>noRows = h_noRows h, noCols = h_noCols h, values = vs,
                valuesSize = h_valuesSize h, colIndices = cs, rowPointers = rp,
                rowPointersSize = h_rowPointersSize h\<rparr>
      | _ \<Rightarrow> None)"

definition handle_of :: "'a Matrix \<Rightarrow> 'a Handle" where
  "handle_of M =
     \<lparr>h_noRows = noRows M, h_noCols = noCols M, h_values = Some (values M),
      h_valuesSize = valuesSize M, h_colIndices = Some (colIndices M),
      h_rowPointers = Some (rowPointers M), h_rowPointersSize = rowPointersSize M\<rparr>"

datatype error =
  HEAP_MEMORY_ERROR | MATRIX_DIMENSION_ERROR | MATRIX_CONVERSION_ERROR | THREAD_START_ERROR

section \<open>Helper functions of the multiplication\<close>

definition can_multiply :: "'a Matrix \<Rightarrow> 'a Matrix \<Rightarrow> bool" where
  "can_multiply a b =
     ((noCols a = noRows b) \<and> (noCols a \<ge> 1 \<and> noRows a \<ge> 1) \<and> (noCols b \<ge> 1 \<and> noRows b \<ge> 1))"

text \<open>
  \<open>predict_values_dimension\<close>: the result is the return code and the value stored in
  \<open>*values_size\<close>.
\<close>

definition predict_values_dimension ::
  "'a env \<Rightarrow> 'a Matrix \<Rightarrow> 'a Matrix \<Rightarrow> (error option \<times> nat) option" where
  "predict_values_dimension env matrix_a matrix_b =
     (let maxValueSize = u64 (noRows matrix_a * noCols matrix_b) in
      if \<not> calloc env (noCols matrix_a) 8 then Some (Some HEAP_MEMORY_ERROR, 0)
      else if \<not> calloc env (noRows matrix_b) 8 then Some (Some HEAP_MEMORY_ERROR, 0)
      else do {
        let numsSize = noCols matrix_a;
        numValuesInRowB \<leftarrow> for_loop [0..<noRows matrix_b]
          (\<lambda>rowB arr. do {
             rowBBeg \<leftarrow> rd (rowPointers matrix_b) rowB;
             rowBEnd \<leftarrow> rd (rowPointers matrix_b) (rowB + 1);
             wr arr rowB (u64_sub rowBEnd rowBBeg) })
          (replicate (noRows matrix_b) 0);
        numValuesInColsA \<leftarrow> for_loop [0..<valuesSize matrix_a]
          (\<lambda>valuesIndex arr. do {
             column \<leftarrow> rd (colIndices matrix_a) valuesIndex;
             old \<leftarrow> rd arr column;
             wr arr column (u64 (old + 1)) })
          (replicate (noCols matrix_a) 0);
        values_size \<leftarrow> for_loop [0..<numsSize]
          (\<lambda>index acc. do {
             b \<leftarrow> rd numValuesInRowB index;
             a \<leftarrow> rd numValuesInColsA index;
             Some (u64 (acc + u64 (b * a))) })
          0;
        Some (None, if values_size > maxValueSize then maxValueSize else values_size)
      })"

text \<open>
  \<open>init_empty_csr_matrix\<close>. The early return after a failed prediction leaves the handle
  as it was; the label \<open>init_matrix_error\<close> sets the three arrays to NULL.
\<close>

definition init_empty_csr_matrix ::
  "('a::zero) env \<Rightarrow> 'a Matrix \<Rightarrow> 'a Matrix \<Rightarrow> 'a Handle \<Rightarrow> bool
     \<Rightarrow> (error option \<times> 'a Handle) option" where
  "init_empty_csr_matrix env matrix_a matrix_b result predict_flag =
     do {
       p \<leftarrow> (if predict_flag then predict_values_dimension env matrix_a matrix_b
             else Some (None, u64 (noRows matrix_a * noCols matrix_b)));
       (case p of
          (Some e, _) \<Rightarrow> Some (Some HEAP_MEMORY_ERROR, result)
        | (None, valuesSize') \<Rightarrow>
            (let init_matrix_error =
                   result\<lparr>h_values := None, h_colIndices := None, h_rowPointers := None\<rparr>
             in
               if \<not> calloc env valuesSize' 4 then Some (Some HEAP_MEMORY_ERROR, init_matrix_error)
               else if \<not> calloc env valuesSize' 8 then Some (Some HEAP_MEMORY_ERROR, init_matrix_error)
               else if \<not> malloc_safe env 8 (noRows matrix_a + 1)
                 then Some (Some HEAP_MEMORY_ERROR, init_matrix_error)
               else Some (None,
                 \<lparr>h_noRows = noRows matrix_a, h_noCols = noCols matrix_b,
                  h_values = Some (replicate valuesSize' 0), h_valuesSize = valuesSize',
                  h_colIndices = Some (replicate valuesSize' 0),
                  h_rowPointers = Some (map (fresh_u64 env) [0..<noRows matrix_a + 1]),
                  h_rowPointersSize = noRows matrix_a + 1\<rparr>)))
     }"

section \<open>The Gustavson kernels\<close>

text \<open>
  The body of the innermost loop of \<open>multiply_V2\<close> and of \<open>multiply_main_implementation\<close>
  (one multiply-accumulate): the product is added at the dense offset
  \<open>rowA * noCols + columnB\<close> of the result's values and the column is recorded.
\<close>

definition accumulate ::
  "('a::{plus,times}) Matrix \<Rightarrow> nat \<Rightarrow> 'a \<Rightarrow> nat \<Rightarrow> 'a Matrix \<Rightarrow> 'a Matrix option" where
  "accumulate matrix_b rowA valueA indexB matrix_result =
     do {
       valueB \<leftarrow> rd (values matrix_b) indexB;
       let valueC = valueA * valueB;
       columnB \<leftarrow> rd (colIndices matrix_b) indexB;
       old \<leftarrow> rd (values matrix_result) (u64 (u64 (rowA * noCols matrix_result) + columnB));
       vs \<leftarrow> wr (values matrix_result) (u64 (u64 (rowA * noCols matrix_result) + columnB))
               (old + valueC);
       cs \<leftarrow> wr (colIndices matrix_result) (u64 (u64 (rowA * noCols matrix_b) + columnB)) columnB;
       Some (matrix_result\<lparr>values := vs, colIndices := cs\<rparr>)
     }"

text \<open>The loop over the entries of row \<open>rowA\<close> of A, and the row pointer written after it.\<close>

definition gustavson_row ::
  "('a::{plus,times}) Matrix \<Rightarrow> 'a Matrix \<Rightarrow> nat \<Rightarrow> 'a Matrix \<Rightarrow> 'a Matrix option" where
  "gustavson_row matrix_a matrix_b rowA matrix_result =
     do {
       rowABeg \<leftarrow> rd (rowPointers matrix_a) rowA;
       rowAEnd \<leftarrow> rd (rowPointers matrix_a) (rowA + 1);
       r \<leftarrow> for_loop [rowABeg..<rowAEnd]
         (\<lambda>indexA r. do {
            valueA \<leftarrow> rd (values matrix_a) indexA;
            colA \<leftarrow> rd (colIndices matrix_a) indexA;
            rowBBeg \<leftarrow> rd (rowPointers matrix_b) colA;
            rowBEnd \<leftarrow> rd (rowPointers matrix_b) (colA + 1);
            for_loop [rowBBeg..<rowBEnd] (accumulate matrix_b rowA valueA) r })
         matrix_result;
       rp \<leftarrow> wr (rowPointers r) (rowA + 1) (u64 ((rowA + 1) * noCols r));
       Some (r\<lparr>rowPointers := rp\<rparr>)
     }"

definition multiply_V2 ::
  "('a::{plus,times}) Matrix \<Rightarrow> 'a Matrix \<Rightarrow> 'a Matrix \<Rightarrow> 'a Matrix option" where
  "multiply_V2 matrix_a matrix_b matrix_result =
     do {
       rp \<leftarrow> wr (rowPointers matrix_result) 0 0;
       for_loop [0..<noRows matrix_a] (gustavson_row matrix_a matrix_b)
         (matrix_result\<lparr>rowPointers := rp\<rparr>)
     }"

text \<open>
  The worker of the multithreaded kernel: the same loop over the rows
  \<open>[start_row, end_row)\<close> of its argument. The three matrix pointers of
  \<open>struct MultiplyArg\<close> are the same for every worker and are passed beside it.
\<close>

record MultiplyArg =
  start_row :: nat
  end_row :: nat

definition multiply_main_implementation ::
  "('a::{plus,times}) Matrix \<Rightarrow> 'a Matrix \<Rightarrow> MultiplyArg \<Rightarrow> 'a Matrix \<Rightarrow> 'a Matrix option" where
  "multiply_main_implementation matrix_a matrix_b arg matrix_result =
     do {
       rp \<leftarrow> wr (rowPointers matrix_result) 0 0;
       for_loop [start_row arg..<end_row arg] (gustavson_row matrix_a matrix_b)
         (matrix_result\<lparr>rowPointers := rp\<rparr>)
     }"

subsection \<open>The SIMD kernels\<close>

text \<open>
  One pass of the \<open>do ... while (valuesToMultiply >= lanes)\<close> loop of \<open>multiply_V3\<close>
  (\<open>lanes = 4\<close>) and \<open>multiply_V4\<close> (\<open>lanes = 8\<close>): the vector load reads \<open>lanes\<close> values of B
  from \<open>indexB\<close> on, the vector product multiplies each by the broadcast value of A, and the
  scalar loop scatters the products. The sources call it with 4 and 8 only; \<open>lanes = 0\<close> is
  no call of theirs and is a fault here.
\<close>

function simd_batches ::
  "nat \<Rightarrow> ('a::{plus,times}) Matrix \<Rightarrow> nat \<Rightarrow> nat \<Rightarrow> 'a \<Rightarrow> nat \<Rightarrow> nat \<Rightarrow> 'a Matrix
     \<Rightarrow> (nat \<times> 'a Matrix) option" where
  "simd_batches lanes matrix_b resultValueIndex resultColIndex valueA valuesToMultiply indexB
       matrix_result =
     (if lanes = 0 then None
      else do {
        values_to_add \<leftarrow> for_loop [0..<lanes]
          (\<lambda>i acc. do { b \<leftarrow> rd (values matrix_b) (indexB + i); Some (acc @ [b * valueA]) }) [];
        r \<leftarrow> for_loop [0..<lanes]
          (\<lambda>i r. do {
             columnB \<leftarrow> rd (colIndices matrix_b) (indexB + i);
             v \<leftarrow> rd values_to_add i;
             old \<leftarrow> rd (values r) (u64 (resultValueIndex + columnB));
             vs \<leftarrow> wr (values r) (u64 (resultValueIndex + columnB)) (old + v);
             cs \<leftarrow> wr (colIndices r) (u64 (resultColIndex + columnB)) columnB;
             Some (r\<lparr>values := vs, colIndices := cs\<rparr>) })
          matrix_result;
        (if valuesToMultiply - lanes \<ge> lanes
         then simd_batches lanes matrix_b resultValueIndex resultColIndex valueA
                (valuesToMultiply - lanes) (indexB + lanes) r
         else Some (indexB + lanes, r))
      })"
  by pat_completeness auto
termination
  by (relation "measure (\<lambda>(lanes, b, rv, rc, a, n, i, r). n)") auto

definition simd_row ::
  "nat \<Rightarrow> ('a::{plus,times}) Matrix \<Rightarrow> 'a Matrix \<Rightarrow> nat \<Rightarrow> 'a Matrix \<Rightarrow> 'a Matrix option" where
  "simd_row lanes matrix_a matrix_b rowA matrix_result =
     do {
       rowABeg \<leftarrow> rd (rowPointers matrix_a) rowA;
       rowAEnd \<leftarrow> rd (rowPointers matrix_a) (rowA + 1);
       r \<leftarrow> for_loop [rowABeg..<rowAEnd]
         (\<lambda>indexA r. do {
            let resultValueIndex = u64 (rowA * noCols r);
            let resultColIndex = u64 (rowA * noCols matrix_b);
            colA \<leftarrow> rd (colIndices matrix_a) indexA;
            rowBBeg \<leftarrow> rd (rowPointers matrix_b) colA;
            rowBEnd \<leftarrow> rd (rowPointers matrix_b) (colA + 1);
            let valuesToMultiply = u64_sub rowBEnd rowBBeg;
            (indexB, r') \<leftarrow>
              (if valuesToMultiply \<ge> lanes then do {
                 valueA \<leftarrow> rd (values matrix_a) indexA;
                 simd_batches lanes matrix_b resultValueIndex resultColIndex valueA
                   valuesToMultiply rowBBeg r }
               else Some (rowBBeg, r));
            valueA \<leftarrow> rd (values matrix_a) indexA;
            for_loop [indexB..<rowBEnd]
              (\<lambda>indexB r. do {
                 valueB \<leftarrow> rd (values matrix_b) indexB;
                 let valueC = valueA * valueB;
                 columnB \<leftarrow> rd (colIndices matrix_b) indexB;
                 old \<leftarrow> rd (values r) (u64 (resultValueIndex + columnB));
                 vs \<leftarrow> wr (values r) (u64 (resultValueIndex + columnB)) (old + valueC);
                 cs \<leftarrow> wr (colIndices r) (u64 (resultColIndex + columnB)) columnB;
                 Some (r\<lparr>values := vs, colIndices := cs\<rparr>) })
              r' })
         matrix_result;
       rp \<leftarrow> wr (rowPointers r) (rowA + 1) (u64 ((rowA + 1) * noCols r));
       Some (r\<lparr>rowPointers := rp\<rparr>)
     }"

text \<open>
  \<open>multiply_V3\<close> and \<open>multiply_V4\<close>: the first row pointer is written before the scratch
  array of \<open>lanes\<close> floats is requested; the return code comes with the result as it stands.
\<close>

definition multiply_simd ::
  "nat \<Rightarrow> ('a::{plus,times}) env \<Rightarrow> 'a Matrix \<Rightarrow> 'a Matrix \<Rightarrow> 'a Matrix
     \<Rightarrow> (error option \<times> 'a Matrix) option" where
  "multiply_simd lanes env matrix_a matrix_b matrix_result =
     do {
       rp \<leftarrow> wr (rowPointers matrix_result) 0 0;
       (if \<not> avail env (4 * lanes) then Some (Some HEAP_MEMORY_ERROR, matrix_result\<lparr>rowPointers := rp\<rparr>)
        else do {
          r \<leftarrow> for_loop [0..<noRows matrix_a] (simd_row lanes matrix_a matrix_b)
                 (matrix_result\<lparr>rowPointers := rp\<rparr>);
          Some (None, r) })
     }"

definition multiply_V3 ::
  "('a::{plus,times}) env \<Rightarrow> 'a Matrix \<Rightarrow> 'a Matrix \<Rightarrow> 'a Matrix
     \<Rightarrow> (error option \<times> 'a Matrix) option" where
  "multiply_V3 = multiply_simd 4"

definition multiply_V4 ::
  "('a::{plus,times}) env \<Rightarrow> 'a Matrix \<Rightarrow> 'a Matrix \<Rightarrow> 'a Matrix
     \<Rightarrow> (error option \<times> 'a Matrix) option" where
  "multiply_V4 = multiply_simd 8"

subsection \<open>The size-predicted kernel\<close>

text \<open>
  The scan of \<open>multiply_V5\<close> for the slot of one product: from \<open>valuesBegPtr\<close> up to
  \<open>valuesSize\<close>, the first slot whose value is zero takes the product (and moves
  \<open>valuesEndPtr\<close> behind it), a slot of the same column accumulates it; either ends the scan.
  The state is the result and \<open>valuesEndPtr\<close>.
\<close>

fun scan_slots ::
  "nat list \<Rightarrow> nat \<Rightarrow> ('a::{zero,plus}) \<Rightarrow> 'a Matrix \<times> nat \<Rightarrow> ('a Matrix \<times> nat) option" where
  "scan_slots [] columnB valueC (r, valuesEndPtr) = Some (r, valuesEndPtr)"
| "scan_slots (i # is) columnB valueC (r, valuesEndPtr) =
     do {
       v \<leftarrow> rd (values r) i;
       (if v = 0 then do {
          vs \<leftarrow> wr (values r) i valueC;
          cs \<leftarrow> wr (colIndices r) i columnB;
          Some (r\<lparr>values := vs, colIndices := cs\<rparr>, i + 1) }
        else do {
          c \<leftarrow> rd (colIndices r) i;
          (if c = columnB then do {
             vs \<leftarrow> wr (values r) i (v + valueC);
             Some (r\<lparr>values := vs\<rparr>, valuesEndPtr) }
           else scan_slots is columnB valueC (r, valuesEndPtr)) })
     }"

text \<open>The state of \<open>multiply_V5\<close>: the result, \<open>valuesBegPtr\<close> and \<open>valuesEndPtr\<close>.\<close>

definition predicted_row ::
  "('a::{zero,plus,times}) Matrix \<Rightarrow> 'a Matrix \<Rightarrow> nat \<Rightarrow> 'a Matrix \<times> nat \<times> nat
     \<Rightarrow> ('a Matrix \<times> nat \<times> nat) option" where
  "predicted_row matrix_a matrix_b rowA st =
     (case st of (matrix_result, valuesBegPtr, valuesEndPtr) \<Rightarrow>
     do {
       rowABeg \<leftarrow> rd (rowPointers matrix_a) rowA;
       rowAEnd \<leftarrow> rd (rowPointers matrix_a) (rowA + 1);
       (r, e) \<leftarrow> for_loop [rowABeg..<rowAEnd]
         (\<lambda>indexA st. do {
            valueA \<leftarrow> rd (values matrix_a) indexA;
            colA \<leftarrow> rd (colIndices matrix_a) indexA;
            rowBBeg \<leftarrow> rd (rowPointers matrix_b) colA;
            rowBEnd \<leftarrow> rd (rowPointers matrix_b) (colA + 1);
            for_loop [rowBBeg..<rowBEnd]
              (\<lambda>indexB (r, e). do {
                 valueB \<leftarrow> rd (values matrix_b) indexB;
                 let valueC = valueA * valueB;
                 columnB \<leftarrow> rd (colIndices matrix_b) indexB;
                 scan_slots [valuesBegPtr..<valuesSize r] columnB valueC (r, e) })
              st })
         (matrix_result, valuesEndPtr);
       rp \<leftarrow> wr (rowPointers r) (rowA + 1) e;
       Some (r\<lparr>rowPointers := rp\<rparr>, e, e)
     })"

definition multiply_V5 ::
  "('a::{zero,plus,times}) Matrix \<Rightarrow> 'a Matrix \<Rightarrow> 'a Matrix \<Rightarrow> 'a Matrix option" where
  "multiply_V5 matrix_a matrix_b matrix_result =
     do {
       rp \<leftarrow> wr (rowPointers matrix_result) 0 0;
       (r, b, e) \<leftarrow> for_loop [0..<noRows matrix_a] (predicted_row matrix_a matrix_b)
                     (matrix_result\<lparr>rowPointers := rp\<rparr>, 0, 0);
       Some r
     }"

section \<open>The compactor\<close>

text \<open>
  \<open>_clean_up_matrix_arrays\<close>. The state of its loops is the matrix, \<open>*non_zero_values\<close>,
  \<open>removed\<close> and \<open>row_beg\<close>; \<open>row_beg\<close> is never reset, so the \<open>while\<close> loop of a row runs
  from where the last one stopped up to the row's end. The result is the matrix and
  \<open>*non_zero_values\<close> (the return code is always 0).
\<close>

definition clean_up_entry ::
  "nat \<Rightarrow> ('a::zero) Matrix \<times> nat \<times> nat \<Rightarrow> ('a Matrix \<times> nat \<times> nat) option" where
  "clean_up_entry row_beg st =
     (case st of (matrix, non_zero_values, removed) \<Rightarrow>
     do {
       v \<leftarrow> rd (values matrix) row_beg;
       (if v \<noteq> 0 then do {
          vs \<leftarrow> wr (values matrix) non_zero_values v;
          c \<leftarrow> rd (colIndices matrix) row_beg;
          cs \<leftarrow> wr (colIndices matrix) non_zero_values c;
          Some (matrix\<lparr>values := vs, colIndices := cs\<rparr>, non_zero_values + 1, removed) }
        else Some (matrix, non_zero_values, removed + 1))
     })"

definition clean_up_row ::
  "nat \<Rightarrow> ('a::zero) Matrix \<times> nat \<times> nat \<times> nat \<Rightarrow> ('a Matrix \<times> nat \<times> nat \<times> nat) option" where
  "clean_up_row row st =
     (case st of (matrix, non_zero_values, removed, row_beg) \<Rightarrow>
     do {
       row_end \<leftarrow> rd (rowPointers matrix) row;
       (m, n, r) \<leftarrow> for_loop [row_beg..<row_end] clean_up_entry (matrix, non_zero_values, removed);
       rp \<leftarrow> wr (rowPointers m) row (u64_sub row_end r);
       Some (m\<lparr>rowPointers := rp\<rparr>, n, r, if row_beg < row_end then row_end else row_beg)
     })"

definition clean_up_matrix_arrays :: "('a::zero) Matrix \<Rightarrow> ('a Matrix \<times> nat) option" where
  "clean_up_matrix_arrays matrix =
     do {
       row_beg \<leftarrow> rd (rowPointers matrix) 0;
       (m, n, r, b) \<leftarrow> for_loop [1..<rowPointersSize matrix] clean_up_row (matrix, 0, 0, row_beg);
       Some (m, n)
     }"

text \<open>
  \<open>realloc(p, n * size)\<close> that succeeds keeps the first \<open>n\<close> cells and adds fresh ones
  when the array grows.
\<close>

definition realloc :: "(nat \<Rightarrow> 'b) \<Rightarrow> 'b list \<Rightarrow> nat \<Rightarrow> 'b list" where
  "realloc fresh xs n = take n xs @ map fresh [length xs..<n]"

definition clean_up_csr ::
  "('a::zero) env \<Rightarrow> 'a Matrix \<Rightarrow> (error option \<times> 'a Matrix) option" where
  "clean_up_csr env matrix =
     do {
       (m, non_zero_values) \<leftarrow> clean_up_matrix_arrays matrix;
       (if non_zero_values > 0 then
          (if non_zero_values * 4 \<ge> 2 ^ 64 then Some (Some HEAP_MEMORY_ERROR, m)
           else if \<not> avail env (non_zero_values * 4) then Some (Some HEAP_MEMORY_ERROR, m)
           else
             (let m1 = m\<lparr>values := realloc (fresh_float env) (values m) non_zero_values\<rparr> in
              if non_zero_values * 8 \<ge> 2 ^ 64 then Some (Some HEAP_MEMORY_ERROR, m1)
              else if \<not> avail env (non_zero_values * 8) then Some (Some HEAP_MEMORY_ERROR, m1)
              else Some (None,
                m1\<lparr>colIndices := realloc (fresh_u64 env) (colIndices m1) non_zero_values,
                   valuesSize := non_zero_values\<rparr>)))
        else Some (None, m\<lparr>valuesSize := non_zero_values\<rparr>))
     }"

section \<open>The dense conversions\<close>

text \<open>
  A \<open>float**\<close> is the list of its rows. \<open>csr_to_ordinary\<close> returns NULL (the inner \<open>None\<close>)
  when the row table or a row is not granted; every row has the same size, so the first
  request of a row decides.
\<close>

definition csr_to_ordinary :: "('a::zero) env \<Rightarrow> 'a Matrix \<Rightarrow> 'a list list option option" where
  "csr_to_ordinary env csr =
     (if \<not> malloc_safe env (noRows csr) 8 then Some None
      else if 0 < noRows csr \<and> \<not> calloc env (noCols csr) 4 then Some None
      else do {
        ordinary \<leftarrow> for_loop [0..<noRows csr]
          (\<lambda>i ordinary. do {
             b \<leftarrow> rd (rowPointers csr) i;
             e \<leftarrow> rd (rowPointers csr) (i + 1);
             for_loop [b..<e]
               (\<lambda>j ordinary. do {
                  col \<leftarrow> rd (colIndices csr) j;
                  v \<leftarrow> rd (values csr) j;
                  row \<leftarrow> rd ordinary i;
                  row' \<leftarrow> wr row col v;
                  wr ordinary i row' })
               ordinary })
          (replicate (noRows csr) (replicate (noCols csr) 0));
        Some (Some ordinary)
      })"

text \<open>
  \<open>ordinary_to_csr\<close>: the first pass counts the nonzero cells, the second writes them in
  row-major order. The fill state is \<open>values\<close>, \<open>colIndices\<close>, \<open>rowPointers\<close> and the
  insertion counter \<open>c\<close>.
\<close>

definition ordinary_to_csr ::
  "('a::zero) env \<Rightarrow> nat \<Rightarrow> nat \<Rightarrow> 'a list list \<Rightarrow> 'a Matrix option option" where
  "ordinary_to_csr env noRows' noCols' ordinary =
     (if \<not> avail env 56 then Some None
      else do {
        no_non_zero \<leftarrow> for_loop [0..<noRows']
          (\<lambda>i n. for_loop [0..<noCols']
             (\<lambda>j n. do {
                row \<leftarrow> rd ordinary i;
                v \<leftarrow> rd row j;
                Some (if v \<noteq> 0 then n + 1 else n) })
             n)
          0;
        (if \<not> malloc_safe env 4 no_non_zero then Some None
         else if \<not> malloc_safe env 8 no_non_zero then Some None
         else if \<not> malloc_safe env 8 (noRows' + 1) then Some None
         else do {
           rp0 \<leftarrow> wr (map (fresh_u64 env) [0..<noRows' + 1]) 0 0;
           (vs, cs, rp, c) \<leftarrow> for_loop [0..<noRows']
             (\<lambda>i st. do {
                (vs, cs, rp, c) \<leftarrow> for_loop [0..<noCols']
                  (\<lambda>j (vs, cs, rp, c). do {
                     row \<leftarrow> rd ordinary i;
                     v \<leftarrow> rd row j;
                     (if v \<noteq> 0 then do {
                        vs' \<leftarrow> wr vs c v;
                        cs' \<leftarrow> wr cs c j;
                        Some (vs', cs', rp, c + 1) }
                      else Some (vs, cs, rp, c)) })
                  st;
                rp' \<leftarrow> wr rp (i + 1) c;
                Some (vs, cs, rp', c) })
             (map (fresh_float env) [0..<no_non_zero], map (fresh_u64 env) [0..<no_non_zero],
              rp0, 0);
           Some (Some \<lparr>noRows = noRows', noCols = noCols', values = vs,
                        valuesSize = no_non_zero, colIndices = cs, rowPointers = rp,
                        rowPointersSize = noRows' + 1\<rparr>)
         })
      })"

text \<open>The triple loop of \<open>matr_mult_csr_V1\<close> on the dense operands.\<close>

definition dense_multiply ::
  "nat \<Rightarrow> nat \<Rightarrow> nat \<Rightarrow> ('a::{plus,times}) list list \<Rightarrow> 'a list list \<Rightarrow> 'a list list
     \<Rightarrow> 'a list list option" where
  "dense_multiply rows cols inner ord_a ord_b ord_result =
     for_loop [0..<rows]
       (\<lambda>i res. for_loop [0..<cols]
          (\<lambda>j res. for_loop [0..<inner]
             (\<lambda>k res. do {
                row \<leftarrow> rd res i;
                old \<leftarrow> rd row j;
                ra \<leftarrow> rd ord_a i;
                a \<leftarrow> rd ra k;
                rb \<leftarrow> rd ord_b k;
                b \<leftarrow> rd rb j;
                row' \<leftarrow> wr row j (old + a * b);
                wr res i row' })
             res)
          res)
       ord_result"

section \<open>The thread partitioner\<close>

text \<open>
  The arguments \<open>start_threads\<close> builds: worker \<open>i\<close> starts at \<open>prev\<close> and gets
  \<open>step + 1\<close> rows when \<open>i < rest\<close>, else \<open>step\<close>; the end of the last worker is then set
  to the number of rows.
\<close>

definition build_arguments :: "nat \<Rightarrow> nat \<Rightarrow> MultiplyArg list" where
  "build_arguments thread_count rows =
     (let step = rows div thread_count;
          rest = u32 (rows mod thread_count);
          (prev, arguments) =
            fold (\<lambda>i (prev, arguments).
                    (let prev' = (if i < rest then u64 (prev + (step + 1)) else u64 (prev + step))
                     in (prev', arguments @ [\<lparr>start_row = prev, end_row = prev'\<rparr>])))
                 [0..<thread_count] (0, [])
      in arguments[thread_count - 1 := (arguments ! (thread_count - 1))\<lparr>end_row := rows\<rparr>])"

text \<open>
  Creating the workers. Concurrency is not modelled: the workers write disjoint rows of the
  result, and their effect is taken to be that of running them one after the other, in the
  order of their creation. When \<open>pthread_create\<close> fails for worker \<open>i\<close>, the workers before
  it have run and are joined.
\<close>

fun run_workers ::
  "('a::{plus,times}) env \<Rightarrow> 'a Matrix \<Rightarrow> 'a Matrix \<Rightarrow> nat \<Rightarrow> MultiplyArg list \<Rightarrow> 'a Matrix
     \<Rightarrow> (error option \<times> 'a Matrix) option" where
  "run_workers env matrix_a matrix_b i [] matrix_result = Some (None, matrix_result)"
| "run_workers env matrix_a matrix_b i (arg # args) matrix_result =
     (if \<not> thread_ok env i then Some (Some THREAD_START_ERROR, matrix_result)
      else do {
        r \<leftarrow> multiply_main_implementation matrix_a matrix_b arg matrix_result;
        run_workers env matrix_a matrix_b (i + 1) args r })"

definition start_threads ::
  "('a::{plus,times}) env \<Rightarrow> nat \<Rightarrow> 'a Matrix \<Rightarrow> 'a Matrix \<Rightarrow> 'a Matrix
     \<Rightarrow> (error option \<times> MultiplyArg list \<times> 'a Matrix) option" where
  "start_threads env thread_count matrix_a matrix_b matrix_result =
     (if thread_count = 0 then Some (Some THREAD_START_ERROR, [], matrix_result)
      else if \<not> avail env (u64 (8 * thread_count)) then Some (Some HEAP_MEMORY_ERROR, [], matrix_result)
      else if \<not> avail env 40 then Some (Some HEAP_MEMORY_ERROR, [], matrix_result)
      else
        (let arguments = build_arguments thread_count (noRows matrix_a) in
         if \<not> avail env (u64 (8 * thread_count))
           then Some (Some HEAP_MEMORY_ERROR, arguments, matrix_result)
         else do {
           (code, r) \<leftarrow> run_workers env matrix_a matrix_b 0 arguments matrix_result;
           Some (code, arguments, r) }))"

section \<open>The entry points (matrix.h)\<close>

text \<open>
  An entry point returns the value it stores in \<open>errno\<close> (\<open>None\<close> when it stores none) and
  the result handle as it leaves it.
\<close>

definition matr_mult_csr_V1 ::
  "('a::{zero,plus,times}) env \<Rightarrow> 'a Matrix \<Rightarrow> 'a Matrix \<Rightarrow> 'a Handle
     \<Rightarrow> (error option \<times> 'a Handle) option" where
  "matr_mult_csr_V1 env matrix_a matrix_b matrix_result =
     (if \<not> can_multiply matrix_a matrix_b then Some (Some MATRIX_DIMENSION_ERROR, matrix_result)
      else do {
        a \<leftarrow> csr_to_ordinary env matrix_a;
        (case a of
           None \<Rightarrow> Some (Some MATRIX_CONVERSION_ERROR, matrix_result)
         | Some ord_a \<Rightarrow> do {
             b \<leftarrow> csr_to_ordinary env matrix_b;
             (case b of
                None \<Rightarrow> Some (Some MATRIX_CONVERSION_ERROR, matrix_result)
              | Some ord_b \<Rightarrow>
                  (if \<not> malloc_safe env (noRows matrix_a) 8
                     then Some (Some HEAP_MEMORY_ERROR, matrix_result)
                   else if 0 < noRows matrix_a \<and> \<not> calloc env (noCols matrix_b) 4
                     then Some (Some HEAP_MEMORY_ERROR, matrix_result)
                   else do {
                     ord_result \<leftarrow> dense_multiply (noRows matrix_a) (noCols matrix_b)
                       (noCols matrix_a) ord_a ord_b
                       (replicate (noRows matrix_a) (replicate (noCols matrix_b) 0));
                     t \<leftarrow> ordinary_to_csr env (noRows matrix_a) (noCols matrix_b) ord_result;
                     (case t of
                        None \<Rightarrow> Some (Some MATRIX_CONVERSION_ERROR, matrix_result)
                      | Some matrix_tmp \<Rightarrow> Some (None, handle_of matrix_tmp)) })) })
      })"

definition matr_mult_csr_V2 ::
  "('a::{zero,plus,times}) env \<Rightarrow> 'a Matrix \<Rightarrow> 'a Matrix \<Rightarrow> 'a Handle
     \<Rightarrow> (error option \<times> 'a Handle) option" where
  "matr_mult_csr_V2 env matrix_a matrix_b matrix_result =
     (if \<not> can_multiply matrix_a matrix_b then Some (Some MATRIX_DIMENSION_ERROR, matrix_result)
      else do {
        (code, h) \<leftarrow> init_empty_csr_matrix env matrix_a matrix_b matrix_result False;
        (if code = Some HEAP_MEMORY_ERROR then Some (Some HEAP_MEMORY_ERROR, h)
         else do {
           r0 \<leftarrow> deref h;
           r \<leftarrow> multiply_V2 matrix_a matrix_b r0;
           (code', r') \<leftarrow> clean_up_csr env r;
           Some (if code' = Some HEAP_MEMORY_ERROR then Some HEAP_MEMORY_ERROR else None,
                 handle_of r') })
      })"

text \<open>\<open>matr_mult_csr_V3\<close> and, on a CPU with AVX, \<open>matr_mult_csr_V4\<close>.\<close>

definition matr_mult_simd ::
  "nat \<Rightarrow> ('a::{zero,plus,times}) env \<Rightarrow> 'a Matrix \<Rightarrow> 'a Matrix \<Rightarrow> 'a Handle
     \<Rightarrow> (error option \<times> 'a Handle) option" where
  "matr_mult_simd lanes env matrix_a matrix_b matrix_result =
     (if \<not> can_multiply matrix_a matrix_b then Some (Some MATRIX_DIMENSION_ERROR, matrix_result)
      else do {
        (code, h) \<leftarrow> init_empty_csr_matrix env matrix_a matrix_b matrix_result False;
        (if code = Some HEAP_MEMORY_ERROR then Some (Some HEAP_MEMORY_ERROR, h)
         else do {
           r0 \<leftarrow> deref h;
           (code1, r) \<leftarrow> multiply_simd lanes env matrix_a matrix_b r0;
           (if code1 = Some HEAP_MEMORY_ERROR then Some (Some HEAP_MEMORY_ERROR, handle_of r)
            else do {
              (code', r') \<leftarrow> clean_up_csr env r;
              Some (if code' = Some HEAP_MEMORY_ERROR then Some HEAP_MEMORY_ERROR else None,
                    handle_of r') }) })
      })"

definition matr_mult_csr_V3 ::
  "('a::{zero,plus,times}) env \<Rightarrow> 'a Matrix \<Rightarrow> 'a Matrix \<Rightarrow> 'a Handle
     \<Rightarrow> (error option \<times> 'a Handle) option" where
  "matr_mult_csr_V3 = matr_mult_simd 4"

definition matr_mult_csr_V4 ::
  "('a::{zero,plus,times}) env \<Rightarrow> 'a Matrix \<Rightarrow> 'a Matrix \<Rightarrow> 'a Handle
     \<Rightarrow> (error option \<times> 'a Handle) option" where
  "matr_mult_csr_V4 env matrix_a matrix_b matrix_result =
     (if \<not> cpu_avx env then matr_mult_csr_V1 env matrix_a matrix_b matrix_result
      else matr_mult_simd 8 env matrix_a matrix_b matrix_result)"

definition matr_mult_csr_V5 ::
  "('a::{zero,plus,times}) env \<Rightarrow> 'a Matrix \<Rightarrow> 'a Matrix \<Rightarrow> 'a Handle
     \<Rightarrow> (error option \<times> 'a Handle) option" where
  "matr_mult_csr_V5 env matrix_a matrix_b matrix_result =
     (if \<not> can_multiply matrix_a matrix_b then Some (Some MATRIX_DIMENSION_ERROR, matrix_result)
      else do {
        (code, h) \<leftarrow> init_empty_csr_matrix env matrix_a matrix_b matrix_result True;
        (if code = Some HEAP_MEMORY_ERROR then Some (Some HEAP_MEMORY_ERROR, h)
         else do {
           r0 \<leftarrow> deref h;
           r \<leftarrow> multiply_V5 matrix_a matrix_b r0;
           (code', r') \<leftarrow> clean_up_csr env r;
           Some (if code' = Some HEAP_MEMORY_ERROR then Some HEAP_MEMORY_ERROR else None,
                 handle_of r') })
      })"

text \<open>
  \<open>matr_mult_csr\<close>, the main implementation. \<open>MIN_THREADS\<close> is 2, \<open>THREAD_COND_MIN_VALUES\<close>
  is 40 and \<open>THREAD_COND_MIN_ROWS\<close> is 4. The thread count is passed to \<open>start_threads\<close> as an
  \<open>unsigned int\<close>. Only \<open>THREAD_START_ERROR\<close> of \<open>start_threads\<close> is checked: after its
  \<open>HEAP_MEMORY_ERROR\<close> the threads are joined through a pointer that was never set, a fault.
\<close>

definition matr_mult_csr ::
  "('a::{zero,plus,times}) env \<Rightarrow> 'a Matrix \<Rightarrow> 'a Matrix \<Rightarrow> 'a Handle
     \<Rightarrow> (error option \<times> 'a Handle) option" where
  "matr_mult_csr env matrix_a matrix_b matrix_result =
     (if valuesSize matrix_a < 10000 \<or> noRows matrix_a < 2
        then matr_mult_csr_V5 env matrix_a matrix_b matrix_result
      else if \<not> can_multiply matrix_a matrix_b
        then Some (Some MATRIX_DIMENSION_ERROR, matrix_result)
      else do {
        (code, h) \<leftarrow> init_empty_csr_matrix env matrix_a matrix_b matrix_result False;
        (if code = Some HEAP_MEMORY_ERROR then Some (Some HEAP_MEMORY_ERROR, h)
         else do {
           r0 \<leftarrow> deref h;
           let available_threads = nprocs env;
           let row_weight = noRows matrix_a div 40;
           let elem_weight = noRows matrix_a div 4;
           let tmp_min = (if row_weight < elem_weight then row_weight else elem_weight);
           let thread_count = (if tmp_min < available_threads then tmp_min else available_threads);
           let thread_count = (if thread_count < 2 then 2 else thread_count);
           (start_result, arguments, r) \<leftarrow>
             start_threads env (u32 thread_count) matrix_a matrix_b r0;
           (if start_result = Some THREAD_START_ERROR
              then Some (Some THREAD_START_ERROR, handle_of r)
            else if start_result = Some HEAP_MEMORY_ERROR then None
            else do {
              (code', r') \<leftarrow> clean_up_csr env r;
              Some (if code' = Some HEAP_MEMORY_ERROR then Some HEAP_MEMORY_ERROR else None,
                    handle_of r') }) })
      })"

text \<open>\<open>choose_mult_fn\<close> (the dispatch table of the main program).\<close>

definition choose_mult_fn ::
  "nat \<Rightarrow> (('a::{zero,plus,times}) env \<Rightarrow> 'a Matrix \<Rightarrow> 'a Matrix \<Rightarrow> 'a Handle
     \<Rightarrow> (error option \<times> 'a Handle) option) option" where
  "choose_mult_fn implementation =
     (if implementation = 0 then Some matr_mult_csr
      else if implementation = 1 then Some matr_mult_csr_V1
      else if implementation = 2 then Some matr_mult_csr_V2
      else if implementation = 3 then Some matr_mult_csr_V3
      else if implementation = 4 then Some matr_mult_csr_V4
      else if implementation = 5 then Some matr_mult_csr_V5
      else None)"

section \<open>The equality checker\<close>

text \<open>
  \<open>_swap_cols\<close> and \<open>_swap_values\<close>: the swap is made only when both indices are below
  \<open>size\<close>.
\<close>

definition swap_cols :: "nat list \<Rightarrow> nat \<Rightarrow> nat \<Rightarrow> nat \<Rightarrow> nat list option" where
  "swap_cols cols sz i j =
     (if i < sz \<and> j < sz then do {
        tmp \<leftarrow> rd cols j;
        ci \<leftarrow> rd cols i;
        cols' \<leftarrow> wr cols j ci;
        wr cols' i tmp }
      else Some cols)"

definition swap_values :: "'a list \<Rightarrow> nat \<Rightarrow> nat \<Rightarrow> nat \<Rightarrow> 'a list option" where
  "swap_values vs sz i j =
     (if i < sz \<and> j < sz then do {
        tmp \<leftarrow> rd vs j;
        vi \<leftarrow> rd vs i;
        vs' \<leftarrow> wr vs j vi;
        wr vs' i tmp }
      else Some vs)"

text \<open>
  The inner loop of \<open>sort_matrix\<close> is \<open>for (uint64_t j = i - 1; j >= beg; j--)\<close>. Its index
  is unsigned: \<open>i - 1\<close> wraps to \<open>2^64 - 1\<close> when \<open>i = 0\<close>, and with \<open>beg = 0\<close> the test
  \<open>j >= beg\<close> never fails, so for the first row the loop goes on below index 0 and reads
  \<open>colIndices[j]\<close> outside the array until a value read there ends it. Every call of
  \<open>equals\<close> on a matrix with a row reaches that read. What the memory outside the array
  holds belongs to the environment: it is the parameter \<open>oob\<close> (the value read at index
  \<open>j\<close>, one such parameter for each of the two matrices of \<open>equals\<close>); nothing is written there, since the swaps are guarded. The loop need not end, so
  both loops of \<open>sort_matrix\<close> take fuel, a bound on their passes; \<open>None\<close> is running out of
  it (or a fault).
\<close>

definition rd_oob :: "(nat \<Rightarrow> nat) \<Rightarrow> nat list \<Rightarrow> nat \<Rightarrow> nat" where
  "rd_oob oob xs j = (if j < length xs then xs ! j else oob j)"

fun sort_inner ::
  "nat \<Rightarrow> (nat \<Rightarrow> nat) \<Rightarrow> nat \<Rightarrow> nat \<Rightarrow> nat \<Rightarrow> nat \<Rightarrow> 'a Matrix \<Rightarrow> 'a Matrix option" where
  "sort_inner 0 oob beg col currentPositionOfValue j matrix = None"
| "sort_inner (Suc fuel) oob beg col currentPositionOfValue j matrix =
     (if j \<ge> beg then
        (if col < rd_oob oob (colIndices matrix) j then do {
           cs \<leftarrow> swap_cols (colIndices matrix) (valuesSize matrix) currentPositionOfValue j;
           vs \<leftarrow> swap_values (values matrix) (valuesSize matrix) currentPositionOfValue j;
           sort_inner fuel oob beg col j (u64_sub j 1) (matrix\<lparr>colIndices := cs, values := vs\<rparr>) }
         else Some matrix)
      else Some matrix)"

fun sort_outer ::
  "nat \<Rightarrow> nat \<Rightarrow> (nat \<Rightarrow> nat) \<Rightarrow> nat \<Rightarrow> nat \<Rightarrow> nat \<Rightarrow> 'a Matrix \<Rightarrow> 'a Matrix option" where
  "sort_outer 0 fuel oob beg end' i matrix = None"
| "sort_outer (Suc n) fuel oob beg end' i matrix =
     (if i \<le> end' then do {
        col \<leftarrow> rd (colIndices matrix) i;
        m \<leftarrow> sort_inner fuel oob beg col i (u64_sub i 1) matrix;
        sort_outer n fuel oob beg end' (u64 (i + 1)) m }
      else Some matrix)"

definition sort_matrix ::
  "nat \<Rightarrow> (nat \<Rightarrow> nat) \<Rightarrow> 'a Matrix \<Rightarrow> nat \<Rightarrow> nat \<Rightarrow> 'a Matrix option" where
  "sort_matrix fuel oob matrix beg end' = sort_outer fuel fuel oob beg end' beg matrix"

text \<open>The two comparison loops of \<open>equals\<close>; each returns at the first difference.\<close>

fun entries_equal :: "nat list \<Rightarrow> 'a Matrix \<Rightarrow> 'a Matrix \<Rightarrow> bool option" where
  "entries_equal [] matrix_a matrix_b = Some True"
| "entries_equal (i # is) matrix_a matrix_b =
     do {
       ca \<leftarrow> rd (colIndices matrix_a) i;
       cb \<leftarrow> rd (colIndices matrix_b) i;
       va \<leftarrow> rd (values matrix_a) i;
       vb \<leftarrow> rd (values matrix_b) i;
       (if ca \<noteq> cb \<or> va \<noteq> vb then Some False else entries_equal is matrix_a matrix_b)
     }"

fun row_pointers_equal :: "nat list \<Rightarrow> 'a Matrix \<Rightarrow> 'a Matrix \<Rightarrow> bool option" where
  "row_pointers_equal [] matrix_a matrix_b = Some True"
| "row_pointers_equal (i # is) matrix_a matrix_b =
     do {
       pa \<leftarrow> rd (rowPointers matrix_a) i;
       pb \<leftarrow> rd (rowPointers matrix_b) i;
       (if pa \<noteq> pb then Some False else row_pointers_equal is matrix_a matrix_b)
     }"

text \<open>
  \<open>equals\<close> returns 1 or 0; the model returns that with the two argument matrices as the
  call leaves them. The arguments are pointers to existing matrices, so the NULL test of the
  source never fires.
\<close>

definition equals ::
  "nat \<Rightarrow> (nat \<Rightarrow> nat) \<Rightarrow> (nat \<Rightarrow> nat) \<Rightarrow> 'a Matrix \<Rightarrow> 'a Matrix
     \<Rightarrow> (nat \<times> 'a Matrix \<times> 'a Matrix) option" where
  "equals fuel oob_a oob_b matrix_a matrix_b =
     (if noCols matrix_a \<noteq> noCols matrix_b \<or> noRows matrix_a \<noteq> noRows matrix_b \<or>
         valuesSize matrix_a \<noteq> valuesSize matrix_b \<or>
         rowPointersSize matrix_a \<noteq> rowPointersSize matrix_b
      then Some (0, matrix_a, matrix_b)
      else do {
        (a, b) \<leftarrow> for_loop [0..<u64_sub (rowPointersSize matrix_a) 1]
          (\<lambda>i (a, b). do {
             rowBegA \<leftarrow> rd (rowPointers a) i;
             pa \<leftarrow> rd (rowPointers a) (i + 1);
             rowBegB \<leftarrow> rd (rowPointers b) i;
             pb \<leftarrow> rd (rowPointers b) (i + 1);
             a' \<leftarrow> sort_matrix fuel oob_a a rowBegA (u64_sub pa 1);
             b' \<leftarrow> sort_matrix fuel oob_b b rowBegB (u64_sub pb 1);
             Some (a', b') })
          (matrix_a, matrix_b);
        e \<leftarrow> entries_equal [0..<valuesSize a] a b;
        (if \<not> e then Some (0, a, b)
         else do {
           p \<leftarrow> row_pointers_equal [0..<rowPointersSize a] a b;
           Some (if p then 1 else 0, a, b) })
      })"

section \<open>Concrete inputs\<close>

text \<open>The scenario of the specification: a 2x3 matrix times a 3x2 matrix, and its product.\<close>

definition scenario_A :: "int Matrix" where
  "scenario_A = \<lparr>noRows = 2, noCols = 3, values = [1, 2, 3], valuesSize = 3,
     colIndices = [0, 1, 2], rowPointers = [0, 2, 3], rowPointersSize = 3\<rparr>"

definition scenario_B :: "int Matrix" where
  "scenario_B = \<lparr>noRows = 3, noCols = 2, values = [4, 5], valuesSize = 2,
     colIndices = [1, 0], rowPointers = [0, 1, 1, 2], rowPointersSize = 4\<rparr>"

definition scenario_product :: "int Handle" where
  "scenario_product = \<lparr>h_noRows = 2, h_noCols = 2, h_values = Some [4, 15], h_valuesSize = 2,
     h_colIndices = Some [1, 0], h_rowPointers = Some [0, 1, 2], h_rowPointersSize = 3\<rparr>"

text \<open>A 2x2 matrix, which the 2x3 matrix of the scenario cannot be multiplied with.\<close>

definition square_B :: "int Matrix" where
  "square_B = \<lparr>noRows = 2, noCols = 2, values = [1, 1], valuesSize = 2,
     colIndices = [0, 1], rowPointers = [0, 1, 2], rowPointersSize = 3\<rparr>"

text \<open>
  A result handle whose arrays are NULL, as the main program passes it, and one whose
  array fields still point to arrays of an earlier use.
\<close>

definition null_handle :: "int Handle" where
  "null_handle = \<lparr>h_noRows = 0, h_noCols = 0, h_values = None, h_valuesSize = 0,
     h_colIndices = None, h_rowPointers = None, h_rowPointersSize = 0\<rparr>"

definition stale_handle :: "int Handle" where
  "stale_handle = \<lparr>h_noRows = 1, h_noCols = 1, h_values = Some [7], h_valuesSize = 1,
     h_colIndices = Some [0], h_rowPointers = Some [0, 1], h_rowPointersSize = 2\<rparr>"

text \<open>
  An environment that grants every request and starts every thread, with or without AVX,
  and one that grants no memory at all.
\<close>

definition env_ok :: "bool \<Rightarrow> int env" where
  "env_ok avx = \<lparr>avail = (\<lambda>n. True), fresh_u64 = (\<lambda>i. 7), fresh_float = (\<lambda>i. 9),
     nprocs = 4, cpu_avx = avx, thread_ok = (\<lambda>i. True)\<rparr>"

definition env_no_memory :: "int env" where
  "env_no_memory = \<lparr>avail = (\<lambda>n. False), fresh_u64 = (\<lambda>i. 7), fresh_float = (\<lambda>i. 9),
     nprocs = 4, cpu_avx = True, thread_ok = (\<lambda>i. True)\<rparr>"

text \<open>
  A 1x3 matrix and a 3x2 matrix without duplicate columns and without stored zeros; in
  their product \<open>(0, 2)\<close> the two contributions to column 0 cancel.
\<close>

definition cancel_A :: "int Matrix" where
  "cancel_A = \<lparr>noRows = 1, noCols = 3, values = [1, - 1, 1], valuesSize = 3,
     colIndices = [0, 1, 2], rowPointers = [0, 3], rowPointersSize = 2\<rparr>"

definition cancel_B :: "int Matrix" where
  "cancel_B = \<lparr>noRows = 3, noCols = 2, values = [1, 1, 1, 1], valuesSize = 4,
     colIndices = [0, 1, 0, 1], rowPointers = [0, 2, 3, 4], rowPointersSize = 4\<rparr>"

text \<open>A 1x2 matrix whose only row is stored with its columns in descending order.\<close>

definition unsorted_M :: "int Matrix" where
  "unsorted_M = \<lparr>noRows = 1, noCols = 2, values = [1, 2], valuesSize = 2,
     colIndices = [1, 0], rowPointers = [0, 2], rowPointersSize = 2\<rparr>"

text \<open>Memory that holds 0 in every cell outside the arrays.\<close>

definition zero_memory :: "nat \<Rightarrow> nat" where
  "zero_memory j = 0"

text \<open>
  A 5x1 matrix of ones, the 1x1 matrix \<open>(2)\<close>, and the dense-sized result for their
  product as \<open>init_empty_csr_matrix\<close> leaves it (fresh cells hold 7).
\<close>

definition tall_A :: "int Matrix" where
  "tall_A = \<lparr>noRows = 5, noCols = 1, values = [1, 1, 1, 1, 1], valuesSize = 5,
     colIndices = [0, 0, 0, 0, 0], rowPointers = [0, 1, 2, 3, 4, 5], rowPointersSize = 6\<rparr>"

definition one_B :: "int Matrix" where
  "one_B = \<lparr>noRows = 1, noCols = 1, values = [2], valuesSize = 1,
     colIndices = [0], rowPointers = [0, 1], rowPointersSize = 2\<rparr>"

definition tall_result :: "int Matrix" where
  "tall_result = \<lparr>noRows = 5, noCols = 1, values = [0, 0, 0, 0, 0], valuesSize = 5,
     colIndices = [0, 0, 0, 0, 0], rowPointers = [7, 7, 7, 7, 7, 7], rowPointersSize = 6\<rparr>"

section \<open>Well-formed matrices\<close>

text \<open>
  A compact matrix: the array lengths agree with the size fields, the row pointers start
  at 0, do not decrease and end at \<open>valuesSize\<close>, no stored value is zero, and the number
  of values fits the index type.
\<close>

definition compact_csr :: "('a::zero) Matrix \<Rightarrow> bool" where
  "compact_csr M \<longleftrightarrow>
     length (values M) = valuesSize M \<and> length (colIndices M) = valuesSize M \<and>
     length (rowPointers M) = rowPointersSize M \<and> 1 \<le> rowPointersSize M \<and>
     rowPointers M ! 0 = 0 \<and> sorted (rowPointers M) \<and>
     rowPointers M ! (rowPointersSize M - 1) = valuesSize M \<and>
     list_all (\<lambda>v. v \<noteq> 0) (values M) \<and> valuesSize M < 2 ^ 64"

text \<open>
  A valid CSR matrix (the invariants of the data model, which the reader of the main
  program checks before any kernel runs): a compact matrix with one row pointer more than
  rows, every column index below the number of columns, and dimensions within the index
  type.
\<close>

definition valid_csr :: "('a::zero) Matrix \<Rightarrow> bool" where
  "valid_csr M \<longleftrightarrow>
     compact_csr M \<and> rowPointersSize M = noRows M + 1 \<and>
     list_all (\<lambda>c. c < noCols M) (colIndices M) \<and>
     noRows M < 2 ^ 64 - 1 \<and> noCols M < 2 ^ 64"

text \<open>The matrix \<open>unsorted_M\<close> with the entries of its row in ascending column order.\<close>

definition sorted_M :: "int Matrix" where
  "sorted_M = \<lparr>noRows = 1, noCols = 2, values = [2, 1], valuesSize = 2,
     colIndices = [0, 1], rowPointers = [0, 2], rowPointersSize = 2\<rparr>"

text \<open>
  \<open>reordered M M'\<close>: \<open>M'\<close> has the dimensions, the size fields and the row pointers of \<open>M\<close>,
  arrays of the same lengths, and the same (column, value) pairs, counted with their
  multiplicity, at possibly other positions.
\<close>

definition reordered :: "'a Matrix \<Rightarrow> 'a Matrix \<Rightarrow> bool" where
  "reordered M M' \<longleftrightarrow>
     noRows M' = noRows M \<and> noCols M' = noCols M \<and> valuesSize M' = valuesSize M \<and>
     rowPointers M' = rowPointers M \<and> rowPointersSize M' = rowPointersSize M \<and>
     length (colIndices M') = length (colIndices M) \<and> length (values M') = length (values M) \<and>
     mset (zip (colIndices M') (values M')) = mset (zip (colIndices M) (values M))"

section \<open>Rows as lists of entries\<close>

text \<open>
  Notions the statements about the conversions and the kernels are phrased with. The nonzero
  cells of a dense row, as (column, value) pairs in ascending column order; those of all
  rows before row \<open>i\<close>; the (column, value) pairs a CSR matrix stores for row \<open>i\<close>, in
  storage order; and writing a list of pairs into a dense row, one after the other.
\<close>

definition nonzero_entries :: "('a::zero) list \<Rightarrow> (nat \<times> 'a) list" where
  "nonzero_entries row = filter (\<lambda>(j, v). v \<noteq> 0) (zip [0..<length row] row)"

definition entries_before :: "('a::zero) list list \<Rightarrow> nat \<Rightarrow> (nat \<times> 'a) list" where
  "entries_before D i = concat (map nonzero_entries (take i D))"

definition row_entries :: "'a Matrix \<Rightarrow> nat \<Rightarrow> (nat \<times> 'a) list" where
  "row_entries M i =
     map (\<lambda>k. (colIndices M ! k, values M ! k)) [rowPointers M ! i..<rowPointers M ! (i + 1)]"

definition scatter :: "(nat \<times> 'a) list \<Rightarrow> 'a list \<Rightarrow> 'a list" where
  "scatter es row = fold (\<lambda>(c, v) r. r[c := v]) es row"



text \<open>A dense matrix with \<open>rows\<close> rows of \<open>cols\<close> cells each.\<close>

definition dense_shape :: "nat \<Rightarrow> nat \<Rightarrow> 'a list list \<Rightarrow> bool" where
  "dense_shape rows cols D \<longleftrightarrow> length D = rows \<and> list_all (\<lambda>row. length row = cols) D"

text \<open>
  The CSR matrix of a dense matrix: its nonzero cells in row-major order, and for every
  row the number of nonzero cells before it.
\<close>

definition dense_csr :: "nat \<Rightarrow> nat \<Rightarrow> ('a::zero) list list \<Rightarrow> 'a Matrix" where
  "dense_csr rows cols D =
     \<lparr>noRows = rows, noCols = cols, values = map snd (entries_before D rows),
      valuesSize = length (entries_before D rows),
      colIndices = map fst (entries_before D rows),
      rowPointers = map (\<lambda>k. length (entries_before D k)) [0..<rows + 1],
      rowPointersSize = rows + 1\<rparr>"

text \<open>
  The invariant of the second pass of \<open>ordinary_to_csr\<close>: the arrays have their final
  length \<open>N\<close>, and their first \<open>c\<close> cells hold the entries \<open>es\<close> written so far.
\<close>

definition filled :: "nat \<Rightarrow> (nat \<times> 'a) list \<Rightarrow> 'a list \<Rightarrow> nat list \<Rightarrow> nat \<Rightarrow> bool" where
  "filled N es vs cs c \<longleftrightarrow>
     length vs = N \<and> length cs = N \<and> c = length es \<and>
     take c cs = map fst es \<and> take c vs = map snd es"

text \<open>
  The dense matrix of a CSR matrix: row \<open>i\<close> is the row of zeros with the stored entries of
  row \<open>i\<close> written into it in storage order.
\<close>

definition csr_dense :: "('a::zero) Matrix \<Rightarrow> 'a list list" where
  "csr_dense M = map (\<lambda>i. scatter (row_entries M i) (replicate (noCols M) 0)) [0..<noRows M]"

text \<open>
  What \<open>csr_to_ordinary\<close> needs of its argument to stay within its arrays: one row pointer
  more than rows, row pointers that do not decrease and end within the arrays, and every
  stored column index below the number of columns.
\<close>

definition csr_shape :: "'a Matrix \<Rightarrow> bool" where
  "csr_shape M \<longleftrightarrow>
     length (rowPointers M) = noRows M + 1 \<and> sorted (rowPointers M) \<and>
     rowPointers M ! noRows M \<le> length (values M) \<and>
     rowPointers M ! noRows M \<le> length (colIndices M) \<and>
     list_all (\<lambda>k. colIndices M ! k < noCols M) [0..<rowPointers M ! noRows M]"

section \<open>The checks of the matrix reader (utils.c)\<close>

text \<open>
  \<open>_check_values\<close>, \<open>_check_col_indices\<close> and \<open>_check_row_pointers\<close>, which
  \<open>read_matrix_from_file\<close> runs on the arrays it has parsed. Each returns 0 (here \<open>True\<close>)
  when the array passes and \<open>MATRIX_FILE_FORMAT_ERROR\<close> (here \<open>False\<close>) at the first
  violation.
\<close>

fun no_zero_value :: "nat list \<Rightarrow> ('a::zero) list \<Rightarrow> bool option" where
  "no_zero_value [] vs = Some True"
| "no_zero_value (i # is) vs =
     do { v \<leftarrow> rd vs i; (if v = 0 then Some False else no_zero_value is vs) }"

definition check_values :: "('a::zero) list \<Rightarrow> nat \<Rightarrow> nat \<Rightarrow> nat \<Rightarrow> bool option" where
  "check_values vs values_size noRows' noCols' =
     (if values_size > u64 (noRows' * noCols') then Some False
      else no_zero_value [0..<values_size] vs)"

fun columns_in_range :: "nat list \<Rightarrow> nat list \<Rightarrow> nat \<Rightarrow> bool option" where
  "columns_in_range [] cs noCols' = Some True"
| "columns_in_range (i # is) cs noCols' =
     do { c \<leftarrow> rd cs i; (if c \<ge> noCols' then Some False else columns_in_range is cs noCols') }"

definition check_col_indices :: "nat list \<Rightarrow> nat \<Rightarrow> nat \<Rightarrow> nat \<Rightarrow> bool option" where
  "check_col_indices cs col_indices_size values_size noCols' =
     (if col_indices_size \<noteq> values_size then Some False
      else columns_in_range [0..<col_indices_size] cs noCols')"

text \<open>The state of the loop over the row pointers is \<open>prev_row_ptr\<close>.\<close>

fun row_lengths_in_range :: "nat list \<Rightarrow> nat list \<Rightarrow> nat \<Rightarrow> nat \<Rightarrow> nat option option" where
  "row_lengths_in_range [] rp noCols' prev_row_ptr = Some (Some prev_row_ptr)"
| "row_lengths_in_range (i # is) rp noCols' prev_row_ptr =
     do {
       next_row_ptr \<leftarrow> rd rp i;
       (if u64_sub next_row_ptr prev_row_ptr > noCols' then Some None
        else row_lengths_in_range is rp noCols' next_row_ptr)
     }"

definition check_row_pointers :: "nat list \<Rightarrow> nat \<Rightarrow> nat \<Rightarrow> nat \<Rightarrow> nat \<Rightarrow> bool option" where
  "check_row_pointers rp row_pointers_size values_size noRows' noCols' =
     (if row_pointers_size < 2 \<or> row_pointers_size \<noteq> u64 (noRows' + 1) then Some False
      else do {
        prev_row_ptr \<leftarrow> rd rp 0;
        (if prev_row_ptr \<noteq> 0 then Some False
         else do {
           last \<leftarrow> row_lengths_in_range [1..<row_pointers_size] rp noCols' prev_row_ptr;
           (case last of
              None \<Rightarrow> Some False
            | Some prev_row_ptr \<Rightarrow> Some (prev_row_ptr = values_size)) })
      })"





section \<open>The size prediction in closed form\<close>

text \<open>
  The sum the specification gives for the prediction: over the columns \<open>c\<close> of A, the
  number of stored entries of A in column \<open>c\<close> times the length of row \<open>c\<close> of B. It is the
  number of multiply-accumulate steps of Gustavson's algorithm.
\<close>

definition mac_count :: "'a Matrix \<Rightarrow> 'a Matrix \<Rightarrow> nat" where
  "mac_count A B =
     (\<Sum>c\<leftarrow>[0..<noCols A].
        count_list (colIndices A) c * (rowPointers B ! (c + 1) - rowPointers B ! c))"

text \<open>The number of cells of an array that are not zero.\<close>

definition nonzeros :: "('a::zero) list \<Rightarrow> nat" where
  "nonzeros vs = length (filter (\<lambda>v. v \<noteq> 0) vs)"

text \<open>
  A valid pair of operands: two valid CSR matrices that can be multiplied, with a dense
  result size and a number of multiply-accumulate steps within the index type.
\<close>

definition valid_pair :: "('a::zero) Matrix \<Rightarrow> 'a Matrix \<Rightarrow> bool" where
  "valid_pair A B \<longleftrightarrow>
     valid_csr A \<and> valid_csr B \<and> can_multiply A B \<and>
     noRows A * noCols B < 2 ^ 64 \<and> mac_count A B < 2 ^ 64"

text \<open>
  \<open>grows k R R'\<close>: the values array of \<open>R'\<close> has the length of that of \<open>R\<close> and at most \<open>k\<close>
  more cells that are not zero.
\<close>

definition grows :: "nat \<Rightarrow> ('a::zero) Matrix \<Rightarrow> 'a Matrix \<Rightarrow> bool" where
  "grows k R R' \<longleftrightarrow>
     length (values R') = length (values R) \<and> nonzeros (values R') \<le> nonzeros (values R) + k"

text \<open>The length of row \<open>c\<close> of a matrix, and the multiply-accumulate steps for row \<open>r\<close> of A.\<close>

definition row_length :: "'a Matrix \<Rightarrow> nat \<Rightarrow> nat" where
  "row_length B c = rowPointers B ! (c + 1) - rowPointers B ! c"

definition row_macs :: "'a Matrix \<Rightarrow> 'a Matrix \<Rightarrow> nat \<Rightarrow> nat" where
  "row_macs A B r =
     (\<Sum>indexA\<leftarrow>[rowPointers A ! r..<rowPointers A ! (r + 1)]. row_length B (colIndices A ! indexA))"

text \<open>
  The invariant of the triple loop of \<open>matr_mult_csr_V1\<close>: the result keeps its shape, and
  a cell of it that is not zero has a nonzero cell of \<open>a\<close> in its row and a nonzero cell of
  \<open>b\<close> in its column that meet at some inner index.
\<close>

definition product_support ::
  "nat \<Rightarrow> nat \<Rightarrow> ('a::zero) list list \<Rightarrow> 'a list list \<Rightarrow> 'a list list \<Rightarrow> bool" where
  "product_support rows cols a b res \<longleftrightarrow>
     length res = rows \<and>
     (\<forall>i < rows. length (res ! i) = cols \<and>
        (\<forall>j < cols. res ! i ! j \<noteq> 0 \<longrightarrow>
           (\<exists>k. k < length (a ! i) \<and> k < length b \<and> a ! i ! k \<noteq> 0 \<and> b ! k ! j \<noteq> 0)))"

text \<open>
  A 2x1 matrix and a 1x9223372036854775808 matrix with one stored value in its row: the
  dense size of their product, \<open>2 * 2^63\<close>, is one more than a \<open>uint64_t\<close> holds.
\<close>

definition wide_A :: "int Matrix" where
  "wide_A = \<lparr>noRows = 2, noCols = 1, values = [1, 1], valuesSize = 2,
     colIndices = [0, 0], rowPointers = [0, 1, 2], rowPointersSize = 3\<rparr>"

definition wide_B :: "int Matrix" where
  "wide_B = \<lparr>noRows = 1, noCols = 9223372036854775808, values = [1], valuesSize = 1,
     colIndices = [0], rowPointers = [0, 1], rowPointersSize = 2\<rparr>"

text \<open>
  What \<open>equals\<close> does to an argument, row by row. \<open>rows_reordered M M'\<close>: the fields and
  the row pointers of \<open>M'\<close> are those of \<open>M\<close>, the arrays have the same lengths and hold
  the same entries, and every row holds the same (column, value) pairs as before, counted
  with their multiplicity. \<open>rows_sorted M\<close>: in every row the columns ascend.
  \<open>same_shape\<close> is the test of the four size fields that \<open>equals\<close> starts with.
\<close>

definition rows_reordered :: "'a Matrix \<Rightarrow> 'a Matrix \<Rightarrow> bool" where
  "rows_reordered M M' \<longleftrightarrow>
     reordered M M' \<and>
     list_all (\<lambda>i. mset (row_entries M' i) = mset (row_entries M i)) [0..<noRows M]"

definition rows_sorted :: "'a Matrix \<Rightarrow> bool" where
  "rows_sorted M \<longleftrightarrow> list_all (\<lambda>i. sorted (map fst (row_entries M i))) [0..<noRows M]"

definition same_shape :: "'a Matrix \<Rightarrow> 'a Matrix \<Rightarrow> bool" where
  "same_shape a b \<longleftrightarrow>
     noCols a = noCols b \<and> noRows a = noRows b \<and> valuesSize a = valuesSize b \<and>
     rowPointersSize a = rowPointersSize b"

text \<open>
  \<open>scan_ends oob K\<close>: one of the \<open>K\<close> cells just below the array (the indices
  \<open>2^64 - 1\<close> down to \<open>2^64 - K\<close>, as the wrapped loop index reaches them) holds 0, so the
  scan of \<open>sort_matrix\<close> below the array ends there whatever column it compares with.
\<close>

definition scan_ends :: "(nat \<Rightarrow> nat) \<Rightarrow> nat \<Rightarrow> bool" where
  "scan_ends oob K \<longleftrightarrow> list_ex (\<lambda>k. oob (18446744073709551615 - k) = 0) [0..<K]"

text \<open>
  The invariants of \<open>sort_matrix\<close> on the cells \<open>[b, e)\<close> of the arrays.
  \<open>segment_permuted b e M M'\<close>: \<open>M'\<close> is \<open>M\<close> with the entries of those cells permuted and
  every other cell as it was. \<open>segment_sorted b e cs\<close>: the columns in those cells ascend.
  \<open>inserting b i cur col cs\<close>: the entry with column \<open>col\<close> that is being inserted into the
  cells \<open>[b, i]\<close> is at \<open>cur\<close>, the other cells ascend, and those behind \<open>cur\<close> hold larger
  columns.
\<close>

definition segment_permuted :: "nat \<Rightarrow> nat \<Rightarrow> 'a Matrix \<Rightarrow> 'a Matrix \<Rightarrow> bool" where
  "segment_permuted b e M M' \<longleftrightarrow>
     noRows M' = noRows M \<and> noCols M' = noCols M \<and> valuesSize M' = valuesSize M \<and>
     rowPointers M' = rowPointers M \<and> rowPointersSize M' = rowPointersSize M \<and>
     length (colIndices M') = length (colIndices M) \<and> length (values M') = length (values M) \<and>
     (\<forall>k. k < b \<or> e \<le> k \<longrightarrow> colIndices M' ! k = colIndices M ! k \<and> values M' ! k = values M ! k) \<and>
     mset (map (\<lambda>k. (colIndices M' ! k, values M' ! k)) [b..<e])
       = mset (map (\<lambda>k. (colIndices M ! k, values M ! k)) [b..<e])"

definition segment_sorted :: "nat \<Rightarrow> nat \<Rightarrow> nat list \<Rightarrow> bool" where
  "segment_sorted b e cs \<longleftrightarrow> (\<forall>p q. b \<le> p \<and> p \<le> q \<and> q < e \<longrightarrow> cs ! p \<le> cs ! q)"

definition inserting :: "nat \<Rightarrow> nat \<Rightarrow> nat \<Rightarrow> nat \<Rightarrow> nat list \<Rightarrow> bool" where
  "inserting b i cur col cs \<longleftrightarrow>
     b \<le> cur \<and> cur \<le> i \<and> cs ! cur = col \<and>
     (\<forall>p q. b \<le> p \<and> p \<le> q \<and> q \<le> i \<and> p \<noteq> cur \<and> q \<noteq> cur \<longrightarrow> cs ! p \<le> cs ! q) \<and>
     (\<forall>q. cur < q \<and> q \<le> i \<longrightarrow> col < cs ! q)"

text \<open>
  The invariant of the loop of \<open>equals\<close> over the rows: \<open>M'\<close> has the fields and the rows of
  \<open>M\<close>, and its rows before \<open>r\<close> are sorted.
\<close>

definition sorted_upto :: "'a Matrix \<Rightarrow> nat \<Rightarrow> 'a Matrix \<Rightarrow> bool" where
  "sorted_upto M r M' \<longleftrightarrow>
     noRows M' = noRows M \<and> noCols M' = noCols M \<and> valuesSize M' = valuesSize M \<and>
     rowPointers M' = rowPointers M \<and> rowPointersSize M' = rowPointersSize M \<and>
     length (colIndices M') = length (colIndices M) \<and> length (values M') = length (values M) \<and>
     (\<forall>i < noRows M. mset (row_entries M' i) = mset (row_entries M i)) \<and>
     (\<forall>i < r. sorted (map fst (row_entries M' i)))"

section \<open>Evaluation of the model on concrete inputs\<close>

lemma u64_small: "n < 18446744073709551616 \<Longrightarrow> u64 n = n"
  by (simp add: u64_def)

lemma u64_sub_small:
  assumes "b \<le> a" and "a < 18446744073709551616"
  shows "u64_sub a b = a - b"
proof -
  have ab: "a mod 18446744073709551616 = a" "b mod 18446744073709551616 = b"
    using assms by simp_all
  have e: "a + 18446744073709551616 - b = 18446744073709551616 + (a - b)"
    using assms by simp
  have "(18446744073709551616 + (a - b)) mod 18446744073709551616
          = (a - b) mod 18446744073709551616"
    by (rule mod_add_self1)
  moreover have "(a - b) mod 18446744073709551616 = a - b"
    using assms by simp
  ultimately show ?thesis
    unfolding u64_sub_def
    by (simp only: ab e power_numeral Num.pow.simps Num.sqr.simps mult_num_simps
          numeral_times_numeral)
qed

lemma u64_sub_zero_one: "u64_sub 0 1 = 18446744073709551615"
  by (simp add: u64_sub_def)

lemma upt_eval: "[i..<j] = (if i < j then i # [i + 1..<j] else [])"
  by (simp add: upt_rec)

lemma replicate_eval: "replicate n x = (if n = 0 then [] else x # replicate (n - 1) x)"
  by (cases n) simp_all

lemma list_update_eval: "(x # xs)[i := v] = (if i = 0 then v # xs else x # xs[i - 1 := v])"
  by (cases i) simp_all

lemmas eval_basics =
  u64_small u64_sub_small u64_sub_zero_one rd_def wr_def upt_eval replicate_eval
  list_update_eval nth_Cons' take_Cons' calloc_def malloc_safe_def can_multiply_def deref_def
  handle_of_def realloc_def u32_def

lemmas eval_kernels =
  init_empty_csr_matrix_def predict_values_dimension_def multiply_V2_def gustavson_row_def
  accumulate_def clean_up_csr_def clean_up_matrix_arrays_def clean_up_row_def
  clean_up_entry_def multiply_V5_def predicted_row_def multiply_simd_def simd_row_def
  csr_to_ordinary_def ordinary_to_csr_def dense_multiply_def

lemmas eval_entries =
  matr_mult_csr_def matr_mult_csr_V1_def matr_mult_csr_V2_def matr_mult_csr_V3_def
  matr_mult_csr_V4_def matr_mult_csr_V5_def matr_mult_simd_def

section \<open>The dispatcher\<close>

text \<open>
  Claim C8. When the main implementation is selected (identifier 0) and A has fewer than
  10000 stored values or fewer than 2 rows, \<open>matr_mult_csr\<close> starts no thread: its outcome,
  the value stored in \<open>errno\<close> and the result handle, is exactly that of the size-predicted
  kernel \<open>matr_mult_csr_V5\<close>, for every environment and every handle.
\<close>

theorem main_falls_back_to_V5:
  assumes "valuesSize matrix_a < 10000 \<or> noRows matrix_a < 2"
  shows "choose_mult_fn 0 = Some matr_mult_csr \<and>
         matr_mult_csr env matrix_a matrix_b result = matr_mult_csr_V5 env matrix_a matrix_b result"
  using assms by (auto simp add: choose_mult_fn_def matr_mult_csr_def)

theorem main_falls_back_to_V5_witness:
  "valuesSize scenario_A < 10000 \<and>
   matr_mult_csr (env_ok True) scenario_A scenario_B null_handle =
     matr_mult_csr_V5 (env_ok True) scenario_A scenario_B null_handle \<and>
   matr_mult_csr_V5 (env_ok True) scenario_A scenario_B null_handle = Some (None, scenario_product)"
proof -
  have small: "valuesSize scenario_A < 10000"
    by (simp add: scenario_A_def)
  then have "valuesSize scenario_A < 10000 \<or> noRows scenario_A < 2" ..
  from main_falls_back_to_V5 [OF this, of "env_ok True" scenario_B null_handle]
  have "matr_mult_csr (env_ok True) scenario_A scenario_B null_handle =
        matr_mult_csr_V5 (env_ok True) scenario_A scenario_B null_handle" ..
  moreover have "matr_mult_csr_V5 (env_ok True) scenario_A scenario_B null_handle =
      Some (None, scenario_product)"
    by (simp add: matr_mult_csr_V5_def eval_kernels eval_basics scenario_A_def scenario_B_def
          scenario_product_def env_ok_def)
  ultimately show ?thesis using small by simp
qed

section \<open>Incompatible dimensions\<close>

text \<open>
  Claim C4. \<open>can_multiply\<close> holds exactly when the number of columns of A is the number of
  rows of B and both matrices have at least one row and one column. When it does not hold,
  every one of the six entry points stores \<open>MATRIX_DIMENSION_ERROR\<close> in \<open>errno\<close> and returns
  with the result handle as the caller passed it: no field is written, no buffer is attached.
\<close>

theorem incompatible_dimensions:
  "(can_multiply matrix_a matrix_b \<longleftrightarrow>
      noCols matrix_a = noRows matrix_b \<and> 1 \<le> noRows matrix_a \<and> 1 \<le> noCols matrix_a \<and>
      1 \<le> noRows matrix_b \<and> 1 \<le> noCols matrix_b) \<and>
   (\<not> can_multiply matrix_a matrix_b \<longrightarrow>
      (\<forall>implementation f. choose_mult_fn implementation = Some f \<longrightarrow>
         f env matrix_a matrix_b result = Some (Some MATRIX_DIMENSION_ERROR, result)))"
proof (intro conjI impI allI)
  show "can_multiply matrix_a matrix_b \<longleftrightarrow>
      noCols matrix_a = noRows matrix_b \<and> 1 \<le> noRows matrix_a \<and> 1 \<le> noCols matrix_a \<and>
      1 \<le> noRows matrix_b \<and> 1 \<le> noCols matrix_b"
    by (auto simp add: can_multiply_def)
next
  fix implementation
    and f :: "'a env \<Rightarrow> 'a Matrix \<Rightarrow> 'a Matrix \<Rightarrow> 'a Handle \<Rightarrow> (error option \<times> 'a Handle) option"
  assume no: "\<not> can_multiply matrix_a matrix_b"
    and f: "choose_mult_fn implementation = Some f"
  have "matr_mult_csr_V1 env matrix_a matrix_b result = Some (Some MATRIX_DIMENSION_ERROR, result)"
       "matr_mult_csr_V2 env matrix_a matrix_b result = Some (Some MATRIX_DIMENSION_ERROR, result)"
       "matr_mult_csr_V3 env matrix_a matrix_b result = Some (Some MATRIX_DIMENSION_ERROR, result)"
       "matr_mult_csr_V5 env matrix_a matrix_b result = Some (Some MATRIX_DIMENSION_ERROR, result)"
    using no
    by (simp_all add: matr_mult_csr_V1_def matr_mult_csr_V2_def matr_mult_csr_V3_def
          matr_mult_csr_V5_def matr_mult_simd_def)
  moreover from this
  have "matr_mult_csr_V4 env matrix_a matrix_b result = Some (Some MATRIX_DIMENSION_ERROR, result)"
       "matr_mult_csr env matrix_a matrix_b result = Some (Some MATRIX_DIMENSION_ERROR, result)"
    using no by (simp_all add: matr_mult_csr_V4_def matr_mult_csr_def matr_mult_simd_def)
  ultimately show "f env matrix_a matrix_b result = Some (Some MATRIX_DIMENSION_ERROR, result)"
    using f by (auto simp add: choose_mult_fn_def split: if_splits)
qed

theorem incompatible_dimensions_witness:
  "\<not> can_multiply scenario_A square_B \<and>
   matr_mult_csr (env_ok True) scenario_A square_B null_handle
     = Some (Some MATRIX_DIMENSION_ERROR, null_handle) \<and>
   matr_mult_csr_V1 (env_ok True) scenario_A square_B null_handle
     = Some (Some MATRIX_DIMENSION_ERROR, null_handle) \<and>
   matr_mult_csr_V2 (env_ok True) scenario_A square_B null_handle
     = Some (Some MATRIX_DIMENSION_ERROR, null_handle) \<and>
   matr_mult_csr_V3 (env_ok True) scenario_A square_B null_handle
     = Some (Some MATRIX_DIMENSION_ERROR, null_handle) \<and>
   matr_mult_csr_V4 (env_ok True) scenario_A square_B null_handle
     = Some (Some MATRIX_DIMENSION_ERROR, null_handle) \<and>
   matr_mult_csr_V5 (env_ok True) scenario_A square_B null_handle
     = Some (Some MATRIX_DIMENSION_ERROR, null_handle)"
proof -
  have no: "\<not> can_multiply scenario_A square_B"
    by (simp add: can_multiply_def scenario_A_def square_B_def)
  have all: "choose_mult_fn implementation = Some f \<Longrightarrow>
      f (env_ok True) scenario_A square_B null_handle
        = Some (Some MATRIX_DIMENSION_ERROR, null_handle)" for implementation f
    using incompatible_dimensions [of scenario_A square_B "env_ok True" null_handle] no
    by blast
  show ?thesis
    using no all [of 0] all [of 1] all [of 2] all [of 3] all [of 4] all [of 5]
    by (simp add: choose_mult_fn_def)
qed

section \<open>The scenario of the specification\<close>

text \<open>
  Claim C3. For the 2x3 matrix A and the 3x2 matrix B of the specification's scenario,
  every one of the six entry points returns without an error and leaves in the result
  handle the 2x2 matrix with values \<open>[4, 15]\<close>, column indices \<open>[1, 0]\<close> and row pointers
  \<open>[0, 1, 2]\<close>. This holds in every environment that grants the memory requests (with and
  without AVX), whatever the handle held before. Every row of the product has one entry, so
  the order within a row is not in question.
\<close>

theorem scenario_all_kernels:
  assumes "\<forall>n. avail env n"
  shows "matr_mult_csr env scenario_A scenario_B result = Some (None, scenario_product) \<and>
         matr_mult_csr_V1 env scenario_A scenario_B result = Some (None, scenario_product) \<and>
         matr_mult_csr_V2 env scenario_A scenario_B result = Some (None, scenario_product) \<and>
         matr_mult_csr_V3 env scenario_A scenario_B result = Some (None, scenario_product) \<and>
         matr_mult_csr_V4 env scenario_A scenario_B result = Some (None, scenario_product) \<and>
         matr_mult_csr_V5 env scenario_A scenario_B result = Some (None, scenario_product)"
proof -
  have v1: "matr_mult_csr_V1 env scenario_A scenario_B result = Some (None, scenario_product)"
    using assms
    by (simp add: matr_mult_csr_V1_def eval_kernels eval_basics scenario_A_def scenario_B_def
          scenario_product_def)
  have v2: "matr_mult_csr_V2 env scenario_A scenario_B result = Some (None, scenario_product)"
    using assms
    by (simp add: matr_mult_csr_V2_def eval_kernels eval_basics scenario_A_def scenario_B_def
          scenario_product_def)
  have simd: "matr_mult_simd lanes env scenario_A scenario_B result = Some (None, scenario_product)"
    if "lanes = 4 \<or> lanes = 8" for lanes
    using assms that
    by (auto simp add: matr_mult_simd_def eval_kernels eval_basics scenario_A_def scenario_B_def
          scenario_product_def)
  have v5: "matr_mult_csr_V5 env scenario_A scenario_B result = Some (None, scenario_product)"
    using assms
    by (simp add: matr_mult_csr_V5_def eval_kernels eval_basics scenario_A_def scenario_B_def
          scenario_product_def)
  have v0: "matr_mult_csr env scenario_A scenario_B result
              = matr_mult_csr_V5 env scenario_A scenario_B result"
    by (simp add: matr_mult_csr_def scenario_A_def)
  show ?thesis
    using v1 v2 v5 v0 simd [of 4] simd [of 8]
    by (simp add: matr_mult_csr_V3_def matr_mult_csr_V4_def)
qed

theorem scenario_all_kernels_witness:
  "matr_mult_csr (env_ok False) scenario_A scenario_B null_handle = Some (None, scenario_product) \<and>
   matr_mult_csr_V1 (env_ok False) scenario_A scenario_B null_handle = Some (None, scenario_product) \<and>
   matr_mult_csr_V2 (env_ok False) scenario_A scenario_B null_handle = Some (None, scenario_product) \<and>
   matr_mult_csr_V3 (env_ok False) scenario_A scenario_B null_handle = Some (None, scenario_product) \<and>
   matr_mult_csr_V4 (env_ok False) scenario_A scenario_B null_handle = Some (None, scenario_product) \<and>
   matr_mult_csr_V5 (env_ok False) scenario_A scenario_B null_handle = Some (None, scenario_product)"
proof -
  have "\<forall>n. avail (env_ok False) n"
    by (simp add: env_ok_def)
  from scenario_all_kernels [OF this] show ?thesis .
qed

section \<open>Cross-kernel equivalence fails on a cancellation\<close>

text \<open>
  Claim C1 says that the six kernels produce equal matrices for every valid pair. The
  kernels that accumulate at dense offsets and the dense reference kernel agree on
  \<open>cancel_A\<close> and \<open>cancel_B\<close>, whose product is the row \<open>(0, 2)\<close>: they return the single
  entry 2 in column 1. The size-predicted kernel takes a stored zero for a free slot: after
  the two contributions to column 0 have cancelled, the second contribution to column 1 is
  written into the slot of column 0 instead of being added to the slot of column 1, and
  \<open>matr_mult_csr_V5\<close> (and with it the main implementation, which falls back to it) returns
  the entry 1 in column 1.
\<close>

theorem size_predicted_kernel_differs:
  "matr_mult_csr_V1 (env_ok True) cancel_A cancel_B null_handle =
     Some (None, \<lparr>h_noRows = 1, h_noCols = 2, h_values = Some [2], h_valuesSize = 1,
                  h_colIndices = Some [1], h_rowPointers = Some [0, 1], h_rowPointersSize = 2\<rparr>) \<and>
   matr_mult_csr_V2 (env_ok True) cancel_A cancel_B null_handle =
     Some (None, \<lparr>h_noRows = 1, h_noCols = 2, h_values = Some [2], h_valuesSize = 1,
                  h_colIndices = Some [1], h_rowPointers = Some [0, 1], h_rowPointersSize = 2\<rparr>) \<and>
   matr_mult_csr_V3 (env_ok True) cancel_A cancel_B null_handle =
     Some (None, \<lparr>h_noRows = 1, h_noCols = 2, h_values = Some [2], h_valuesSize = 1,
                  h_colIndices = Some [1], h_rowPointers = Some [0, 1], h_rowPointersSize = 2\<rparr>) \<and>
   matr_mult_csr_V5 (env_ok True) cancel_A cancel_B null_handle =
     Some (None, \<lparr>h_noRows = 1, h_noCols = 2, h_values = Some [1], h_valuesSize = 1,
                  h_colIndices = Some [1], h_rowPointers = Some [0, 1], h_rowPointersSize = 2\<rparr>) \<and>
   matr_mult_csr (env_ok True) cancel_A cancel_B null_handle =
     Some (None, \<lparr>h_noRows = 1, h_noCols = 2, h_values = Some [1], h_valuesSize = 1,
                  h_colIndices = Some [1], h_rowPointers = Some [0, 1], h_rowPointersSize = 2\<rparr>)"
proof -
  have v1: "matr_mult_csr_V1 (env_ok True) cancel_A cancel_B null_handle =
     Some (None, \<lparr>h_noRows = 1, h_noCols = 2, h_values = Some [2], h_valuesSize = 1,
                  h_colIndices = Some [1], h_rowPointers = Some [0, 1], h_rowPointersSize = 2\<rparr>)"
    by (simp add: matr_mult_csr_V1_def eval_kernels eval_basics cancel_A_def cancel_B_def
          env_ok_def)
  have v2: "matr_mult_csr_V2 (env_ok True) cancel_A cancel_B null_handle =
     Some (None, \<lparr>h_noRows = 1, h_noCols = 2, h_values = Some [2], h_valuesSize = 1,
                  h_colIndices = Some [1], h_rowPointers = Some [0, 1], h_rowPointersSize = 2\<rparr>)"
    by (simp add: matr_mult_csr_V2_def eval_kernels eval_basics cancel_A_def cancel_B_def
          env_ok_def)
  have v3: "matr_mult_csr_V3 (env_ok True) cancel_A cancel_B null_handle =
     Some (None, \<lparr>h_noRows = 1, h_noCols = 2, h_values = Some [2], h_valuesSize = 1,
                  h_colIndices = Some [1], h_rowPointers = Some [0, 1], h_rowPointersSize = 2\<rparr>)"
    by (simp add: matr_mult_csr_V3_def matr_mult_simd_def eval_kernels eval_basics cancel_A_def
          cancel_B_def env_ok_def)
  have v5: "matr_mult_csr_V5 (env_ok True) cancel_A cancel_B null_handle =
     Some (None, \<lparr>h_noRows = 1, h_noCols = 2, h_values = Some [1], h_valuesSize = 1,
                  h_colIndices = Some [1], h_rowPointers = Some [0, 1], h_rowPointersSize = 2\<rparr>)"
    by (simp add: matr_mult_csr_V5_def eval_kernels eval_basics cancel_A_def cancel_B_def
          env_ok_def)
  have v0: "matr_mult_csr (env_ok True) cancel_A cancel_B null_handle =
            matr_mult_csr_V5 (env_ok True) cancel_A cancel_B null_handle"
    by (simp add: matr_mult_csr_def cancel_A_def)
  show ?thesis
    using v1 v2 v3 v5 v0 by simp
qed

section \<open>The result handle after a failed initialisation\<close>

text \<open>
  Claim C10 says that an entry point that fails while the result is being initialised
  leaves the three array fields of the result NULL. \<open>matr_mult_csr_V2\<close> does, through the
  label \<open>init_matrix_error\<close>. \<open>matr_mult_csr_V1\<close> never writes the handle on its error
  paths, and \<open>matr_mult_csr_V5\<close> returns before that label when the size prediction gets
  no memory: on a handle whose array fields are not NULL, both leave them as they were.
\<close>

theorem failed_initialisation_leaves_stale_arrays:
  "matr_mult_csr_V1 env_no_memory scenario_A scenario_B stale_handle
     = Some (Some MATRIX_CONVERSION_ERROR, stale_handle) \<and>
   matr_mult_csr_V5 env_no_memory scenario_A scenario_B stale_handle
     = Some (Some HEAP_MEMORY_ERROR, stale_handle) \<and>
   matr_mult_csr_V2 env_no_memory scenario_A scenario_B stale_handle
     = Some (Some HEAP_MEMORY_ERROR,
             stale_handle\<lparr>h_values := None, h_colIndices := None, h_rowPointers := None\<rparr>) \<and>
   h_values stale_handle = Some [7] \<and> h_colIndices stale_handle = Some [0] \<and>
   h_rowPointers stale_handle = Some [0, 1]"
proof -
  have v1: "matr_mult_csr_V1 env_no_memory scenario_A scenario_B stale_handle
     = Some (Some MATRIX_CONVERSION_ERROR, stale_handle)"
    by (simp add: matr_mult_csr_V1_def eval_kernels eval_basics scenario_A_def scenario_B_def
          env_no_memory_def)
  have v5: "matr_mult_csr_V5 env_no_memory scenario_A scenario_B stale_handle
     = Some (Some HEAP_MEMORY_ERROR, stale_handle)"
    by (simp add: matr_mult_csr_V5_def eval_kernels eval_basics scenario_A_def scenario_B_def
          env_no_memory_def)
  have v2: "matr_mult_csr_V2 env_no_memory scenario_A scenario_B stale_handle
     = Some (Some HEAP_MEMORY_ERROR,
             stale_handle\<lparr>h_values := None, h_colIndices := None, h_rowPointers := None\<rparr>)"
    by (simp add: matr_mult_csr_V2_def eval_kernels eval_basics scenario_A_def scenario_B_def
          env_no_memory_def)
  show ?thesis
    using v1 v5 v2 by (simp add: stale_handle_def)
qed

section \<open>The thread partition\<close>

text \<open>
  After \<open>k\<close> passes of the loop that builds the arguments, \<open>prev\<close> is
  \<open>k * step + min k rest\<close>, and worker \<open>i\<close> has the rows from
  \<open>i * step + min i rest\<close> up to \<open>(i + 1) * step + min (i + 1) rest\<close>.
\<close>

lemma build_arguments_fold:
  fixes step rest :: nat
  assumes "thread_count * step + rest < 18446744073709551616" and "k \<le> thread_count"
  shows "fold (\<lambda>i (prev, arguments).
                 (if i < rest then u64 (prev + (step + 1)) else u64 (prev + step),
                  arguments @ [\<lparr>start_row = prev,
                     end_row = if i < rest then u64 (prev + (step + 1)) else u64 (prev + step)\<rparr>]))
              [0..<k] (0, [])
         = (k * step + min k rest,
            map (\<lambda>i. \<lparr>start_row = i * step + min i rest,
                       end_row = Suc i * step + min (Suc i) rest\<rparr>) [0..<k])"
proof -
  define f where "f = (\<lambda>i (prev, arguments).
                 (if i < rest then u64 (prev + (step + 1)) else u64 (prev + step),
                  arguments @ [\<lparr>start_row = prev,
                     end_row = if i < rest then u64 (prev + (step + 1)) else u64 (prev + step)\<rparr>]))"
  have "fold f [0..<k] (0, [])
         = (k * step + min k rest,
            map (\<lambda>i. \<lparr>start_row = i * step + min i rest,
                       end_row = Suc i * step + min (Suc i) rest\<rparr>) [0..<k])"
    using assms(2)
  proof (induction k)
    case 0
    show ?case by simp
  next
    case (Suc k)
    have "Suc k * step \<le> thread_count * step"
      using Suc.prems by (intro mult_le_mono1) simp
    moreover have "min (Suc k) rest \<le> rest"
      by simp
    ultimately have small: "Suc k * step + min (Suc k) rest < 18446744073709551616"
      using assms(1) by linarith
    have nxt: "(if k < rest then u64 (k * step + min k rest + (step + 1))
                else u64 (k * step + min k rest + step))
               = Suc k * step + min (Suc k) rest"
    proof (cases "k < rest")
      case True
      then have "k * step + min k rest + (step + 1) = Suc k * step + min (Suc k) rest"
        by (simp add: min_def)
      with small True show ?thesis
        by (simp add: u64_small)
    next
      case False
      then have "k * step + min k rest + step = Suc k * step + min (Suc k) rest"
        by (simp add: min_def)
      with small False show ?thesis
        by (simp add: u64_small)
    qed
    have IH: "fold f [0..<k] (0, [])
           = (k * step + min k rest,
              map (\<lambda>i. \<lparr>start_row = i * step + min i rest,
                         end_row = Suc i * step + min (Suc i) rest\<rparr>) [0..<k])"
      using Suc by simp
    have "fold f [0..<Suc k] (0, []) = f k (fold f [0..<k] (0, []))"
      by simp
    also have "\<dots> = f k (k * step + min k rest,
              map (\<lambda>i. \<lparr>start_row = i * step + min i rest,
                         end_row = Suc i * step + min (Suc i) rest\<rparr>) [0..<k])"
      by (simp only: IH)
    also have "\<dots> = (Suc k * step + min (Suc k) rest,
              map (\<lambda>i. \<lparr>start_row = i * step + min i rest,
                         end_row = Suc i * step + min (Suc i) rest\<rparr>) [0..<Suc k])"
      unfolding f_def prod.case nxt by simp
    finally show ?case .
  qed
  then show ?thesis
    unfolding f_def .
qed

lemma end_row_update_same: "end_row a = rows \<Longrightarrow> a\<lparr>end_row := rows\<rparr> = a"
  by (cases a) simp

text \<open>The arguments in closed form, for a thread count and a row count that fit their C types.\<close>

lemma build_arguments_closed:
  assumes tc: "1 \<le> thread_count" "thread_count < 4294967296"
    and rows: "rows < 18446744073709551616"
  shows "build_arguments thread_count rows =
           map (\<lambda>i. \<lparr>start_row = i * (rows div thread_count) + min i (rows mod thread_count),
                      end_row = Suc i * (rows div thread_count) + min (Suc i) (rows mod thread_count)\<rparr>)
               [0..<thread_count]"
proof -
  let ?step = "rows div thread_count" and ?rest = "rows mod thread_count"
  let ?args = "map (\<lambda>i. \<lparr>start_row = i * ?step + min i ?rest,
                            end_row = Suc i * ?step + min (Suc i) ?rest\<rparr>) [0..<thread_count]"
  have rest_lt: "?rest < thread_count"
    using tc by simp
  then have "?rest < 4294967296"
    using tc by linarith
  then have u: "u32 ?rest = ?rest"
    by (simp add: u32_def)
  have total: "thread_count * ?step + ?rest = rows"
    by simp
  have f: "fold (\<lambda>i (prev, arguments).
                 (if i < ?rest then u64 (prev + (?step + 1)) else u64 (prev + ?step),
                  arguments @ [\<lparr>start_row = prev,
                     end_row = if i < ?rest then u64 (prev + (?step + 1)) else u64 (prev + ?step)\<rparr>]))
              [0..<thread_count] (0, [])
         = (thread_count * ?step + min thread_count ?rest, ?args)"
    using build_arguments_fold [of thread_count ?step ?rest thread_count] rows total
    by simp
  obtain m where m: "thread_count = Suc m"
    using tc by (cases thread_count) auto
  have last_end: "end_row (?args ! (thread_count - 1)) = rows"
  proof -
    have "min thread_count ?rest = ?rest"
      using rest_lt by simp
    moreover have "end_row (?args ! m) = Suc m * ?step + min (Suc m) ?rest"
      using m by (simp del: upt_Suc)
    ultimately have "end_row (?args ! m) = thread_count * ?step + ?rest"
      using m by simp
    then show ?thesis
      using total m by simp
  qed
  have upd: "?args[thread_count - 1 := (?args ! (thread_count - 1))\<lparr>end_row := rows\<rparr>] = ?args"
  proof -
    have "(?args ! (thread_count - 1))\<lparr>end_row := rows\<rparr> = ?args ! (thread_count - 1)"
      by (rule end_row_update_same [OF last_end])
    then show ?thesis
      by (simp only: list_update_id)
  qed
  have "build_arguments thread_count rows
          = ?args[thread_count - 1 := (?args ! (thread_count - 1))\<lparr>end_row := rows\<rparr>]"
    unfolding build_arguments_def Let_def u f by (simp only: prod.case)
  then show ?thesis
    by (simp only: upd)
qed

text \<open>
  Claim C7. For a matrix A with at least one row and a thread count of at least 1 (both
  within their C types), the arguments \<open>start_threads\<close> has built when it returns (with or
  without all its threads started, but not for want of memory) are one per worker; the first range starts at row 0, each range starts where the
  one before ends, the last range ends at the number of rows, no range is reversed, and
  every row below the number of rows lies in the range \<open>[start_row, end_row)\<close> of exactly
  one worker: the ranges are contiguous, disjoint, and cover all rows.
\<close>

theorem thread_ranges_partition:
  assumes "start_threads env thread_count matrix_a matrix_b matrix_result
             = Some (code, arguments, r)"
    and "code \<noteq> Some HEAP_MEMORY_ERROR"
    and "1 \<le> noRows matrix_a" and "noRows matrix_a < 18446744073709551616"
    and "1 \<le> thread_count" and "thread_count < 4294967296"
  shows "length arguments = thread_count \<and>
         start_row (arguments ! 0) = 0 \<and>
         (\<forall>i. Suc i < thread_count \<longrightarrow> start_row (arguments ! Suc i) = end_row (arguments ! i)) \<and>
         end_row (arguments ! (thread_count - 1)) = noRows matrix_a \<and>
         (\<forall>i < thread_count. start_row (arguments ! i) \<le> end_row (arguments ! i)) \<and>
         (\<forall>row < noRows matrix_a.
            \<exists>!i. i < thread_count \<and> start_row (arguments ! i) \<le> row \<and> row < end_row (arguments ! i))"
proof -
  let ?rows = "noRows matrix_a"
  let ?step = "?rows div thread_count" and ?rest = "?rows mod thread_count"
  let ?b = "\<lambda>i. i * ?step + min i ?rest"
  have "arguments = build_arguments thread_count ?rows"
    using assms(1,2,5)
    by (auto simp add: start_threads_def Let_def Option.bind_eq_Some_conv split: if_splits)
  then have args: "arguments = map (\<lambda>i. \<lparr>start_row = ?b i, end_row = ?b (Suc i)\<rparr>) [0..<thread_count]"
    using build_arguments_closed [of thread_count ?rows] assms(4,5,6) by simp
  have len: "length arguments = thread_count"
    using args by simp
  have nth: "arguments ! i = \<lparr>start_row = ?b i, end_row = ?b (Suc i)\<rparr>" if "i < thread_count" for i
    using that args by simp
  have rest_lt: "?rest < thread_count"
    using assms(5) by simp
  have b_tc: "?b thread_count = ?rows"
    using rest_lt by (simp add: min_def)
  have mono: "?b i \<le> ?b j" if "i \<le> j" for i j
  proof -
    have "i * ?step \<le> j * ?step"
      using that by (rule mult_le_mono1)
    moreover have "min i ?rest \<le> min j ?rest"
      using that by simp
    ultimately show ?thesis
      by (rule add_mono)
  qed
  have first: "start_row (arguments ! 0) = 0"
    using nth [of 0] assms(5) by simp
  have contiguous: "\<forall>i. Suc i < thread_count \<longrightarrow> start_row (arguments ! Suc i) = end_row (arguments ! i)"
    using nth by simp
  have last_end: "end_row (arguments ! (thread_count - 1)) = ?rows"
  proof -
    have "end_row (arguments ! (thread_count - 1)) = ?b (Suc (thread_count - 1))"
      using nth [of "thread_count - 1"] assms(5) by simp
    then show ?thesis
      using b_tc assms(5) by simp
  qed
  have ordered: "\<forall>i < thread_count. start_row (arguments ! i) \<le> end_row (arguments ! i)"
    using nth mono [of _ "Suc _"] by simp
  have cover: "\<exists>!i. i < thread_count \<and> start_row (arguments ! i) \<le> row \<and> row < end_row (arguments ! i)"
    if row: "row < ?rows" for row
  proof -
    have ex: "\<exists>i. row < ?b i"
      using b_tc row by (intro exI [of _ thread_count]) simp
    define j where "j = (LEAST i. row < ?b i)"
    have j1: "row < ?b j"
      unfolding j_def using ex by (rule LeastI_ex)
    have j_pos: "j \<noteq> 0"
      using j1 by (cases j) auto
    then obtain i where i: "j = Suc i"
      by (cases j) auto
    have j_le: "j \<le> thread_count"
      unfolding j_def using b_tc row by (intro Least_le) simp
    have "\<not> row < ?b i"
      using not_less_Least [of i "\<lambda>i. row < ?b i"] i by (simp add: j_def)
    then have i_lo: "?b i \<le> row"
      by simp
    have i_lt: "i < thread_count"
      using j_le i by simp
    show ?thesis
    proof (rule ex1I [of _ i])
      show "i < thread_count \<and> start_row (arguments ! i) \<le> row \<and> row < end_row (arguments ! i)"
        using i_lt i_lo j1 i nth [OF i_lt] by simp
    next
      fix k
      assume k: "k < thread_count \<and> start_row (arguments ! k) \<le> row \<and> row < end_row (arguments ! k)"
      then have k_lo: "?b k \<le> row" and k_hi: "row < ?b (Suc k)"
        using nth [of k] by simp_all
      have "\<not> Suc k \<le> i"
      proof
        assume "Suc k \<le> i"
        then have "?b (Suc k) \<le> ?b i"
          by (rule mono)
        with i_lo k_hi show False
          by simp
      qed
      moreover have "\<not> Suc i \<le> k"
      proof
        assume "Suc i \<le> k"
        then have "?b (Suc i) \<le> ?b k"
          by (rule mono)
        with k_lo j1 i show False
          by simp
      qed
      ultimately show "k = i"
        by simp
    qed
  qed
  show ?thesis
  proof (intro conjI allI impI)
    show "length arguments = thread_count" by (rule len)
    show "start_row (arguments ! 0) = 0" by (rule first)
    show "end_row (arguments ! (thread_count - 1)) = ?rows" by (rule last_end)
    show "start_row (arguments ! Suc i) = end_row (arguments ! i)" if "Suc i < thread_count" for i
      using contiguous that by simp
    show "start_row (arguments ! i) \<le> end_row (arguments ! i)" if "i < thread_count" for i
      using ordered that by simp
    show "\<exists>!i. i < thread_count \<and> start_row (arguments ! i) \<le> row \<and> row < end_row (arguments ! i)"
      if "row < ?rows" for row
      using that by (rule cover)
  qed
qed

theorem thread_ranges_partition_witness:
  "start_threads (env_ok True) 3 tall_A one_B tall_result =
     Some (None,
           [\<lparr>start_row = 0, end_row = 2\<rparr>, \<lparr>start_row = 2, end_row = 4\<rparr>,
            \<lparr>start_row = 4, end_row = 5\<rparr>],
           \<lparr>noRows = 5, noCols = 1, values = [2, 2, 2, 2, 2], valuesSize = 5,
            colIndices = [0, 0, 0, 0, 0], rowPointers = [0, 1, 2, 3, 4, 5],
            rowPointersSize = 6\<rparr>) \<and>
   (\<exists>!i. i < (3::nat) \<and>
      start_row ([\<lparr>start_row = 0, end_row = 2\<rparr>, \<lparr>start_row = 2, end_row = 4\<rparr>,
                  \<lparr>start_row = 4, end_row = 5\<rparr>] ! i) \<le> (4::nat) \<and>
      (4::nat) < end_row ([\<lparr>start_row = 0, end_row = 2\<rparr>, \<lparr>start_row = 2, end_row = 4\<rparr>,
                  \<lparr>start_row = 4, end_row = 5\<rparr>] ! i))"
proof -
  let ?args = "[\<lparr>start_row = 0, end_row = 2\<rparr>, \<lparr>start_row = 2, end_row = 4\<rparr>,
                \<lparr>start_row = 4, end_row = 5\<rparr>]"
  have run: "start_threads (env_ok True) 3 tall_A one_B tall_result =
     Some (None, ?args,
           \<lparr>noRows = 5, noCols = 1, values = [2, 2, 2, 2, 2], valuesSize = 5,
            colIndices = [0, 0, 0, 0, 0], rowPointers = [0, 1, 2, 3, 4, 5],
            rowPointersSize = 6\<rparr>)"
    by (simp add: start_threads_def build_arguments_def multiply_main_implementation_def
          gustavson_row_def accumulate_def eval_basics tall_A_def one_B_def tall_result_def
          env_ok_def)
  have rows: "1 \<le> noRows tall_A" "noRows tall_A < 18446744073709551616"
    by (simp_all add: tall_A_def)
  have "\<forall>row < noRows tall_A.
          \<exists>!i. i < 3 \<and> start_row (?args ! i) \<le> row \<and> row < end_row (?args ! i)"
    using thread_ranges_partition [OF run _ rows] by simp
  moreover have "4 < noRows tall_A"
    by (simp add: tall_A_def)
  ultimately have "\<exists>!i. i < (3::nat) \<and> start_row (?args ! i) \<le> (4::nat) \<and> (4::nat) < end_row (?args ! i)"
    by blast
  with run show ?thesis
    by (simp only: simp_thms)
qed

section \<open>Loops\<close>

lemma for_loop_append:
  "for_loop (xs @ ys) body s =
     (case for_loop xs body s of None \<Rightarrow> None | Some s' \<Rightarrow> for_loop ys body s')"
  by (induction xs arbitrary: s) (auto split: option.splits)

lemma for_loop_upt_Suc:
  assumes "lo \<le> hi"
  shows "for_loop [lo..<Suc hi] body s =
           (case for_loop [lo..<hi] body s of None \<Rightarrow> None | Some s' \<Rightarrow> body hi s')"
  using assms by (simp add: for_loop_append split: option.splits)

text \<open>
  The invariant rule of a counting loop: an invariant that holds before the loop and is
  carried by every pass (which does not fault) holds after it, and the loop does not fault.
\<close>

lemma for_loop_invariant:
  assumes "P lo s"
    and "\<And>i t. lo \<le> i \<Longrightarrow> i < hi \<Longrightarrow> P i t \<Longrightarrow> \<exists>t'. body i t = Some t' \<and> P (Suc i) t'"
    and "lo \<le> hi"
  shows "\<exists>s'. for_loop [lo..<hi] body s = Some s' \<and> P hi s'"
  using assms(3,2)
proof (induction hi rule: dec_induct)
  case base
  show ?case using assms(1) by simp
next
  case (step n)
  have "\<exists>s'. for_loop [lo..<n] body s = Some s' \<and> P n s'"
    using step.IH step.prems step.hyps by (simp add: less_Suc_eq)
  then obtain s' where s': "for_loop [lo..<n] body s = Some s'" "P n s'"
    by blast
  obtain t' where "body n s' = Some t'" "P (Suc n) t'"
    using step.prems [of n s'] step.hyps s'(2) by auto
  then show ?case
    using s'(1) step.hyps by (simp add: for_loop_append)
qed

section \<open>Compaction of a compact matrix\<close>

lemma u64_sub_0: "n < 18446744073709551616 \<Longrightarrow> u64_sub n 0 = n"
  by (simp add: u64_sub_small)

lemma clean_up_entries_compact:
  assumes "e \<le> length (values M)" and "length (colIndices M) = length (values M)"
    and "\<forall>v \<in> set (values M). v \<noteq> 0" and "b \<le> e"
  shows "for_loop [b..<e] clean_up_entry (M, b, removed) = Some (M, e, removed)"
proof -
  have "\<exists>s'. for_loop [b..<e] clean_up_entry (M, b, removed) = Some s' \<and> s' = (M, e, removed)"
  proof (rule for_loop_invariant [where P = "\<lambda>i s. s = (M, i, removed)"])
    show "(M, b, removed) = (M, b, removed)" ..
    show "b \<le> e" by (rule assms(4))
  next
    fix i t
    assume i: "b \<le> i" "i < e" and t: "t = (M, i, removed)"
    have "i < length (values M)"
      using i assms(1) by simp
    moreover from this have "values M ! i \<noteq> 0"
      using assms(3) nth_mem by blast
    ultimately have "clean_up_entry i t = Some (M, Suc i, removed)"
      using assms(2) t by (simp add: clean_up_entry_def rd_def wr_def)
    then show "\<exists>t'. clean_up_entry i t = Some t' \<and> t' = (M, Suc i, removed)"
      by simp
  qed
  then show ?thesis
    by simp
qed

lemma compact_row_pointer_bounds:
  assumes "compact_csr M" and "i \<le> j" and "j < rowPointersSize M"
  shows "rowPointers M ! i \<le> rowPointers M ! j" and "rowPointers M ! j \<le> valuesSize M"
    and "rowPointers M ! j < 18446744073709551616"
proof -
  have len: "length (rowPointers M) = rowPointersSize M" and srt: "sorted (rowPointers M)"
    and lst: "rowPointers M ! (rowPointersSize M - 1) = valuesSize M"
    and sz: "valuesSize M < 18446744073709551616"
    using assms(1) by (simp_all add: compact_csr_def)
  show "rowPointers M ! i \<le> rowPointers M ! j"
    using srt assms(2,3) len by (simp add: sorted_nth_mono)
  have "rowPointers M ! j \<le> rowPointers M ! (rowPointersSize M - 1)"
    using srt assms(3) len by (intro sorted_nth_mono) simp_all
  then show "rowPointers M ! j \<le> valuesSize M"
    using lst by simp
  then show "rowPointers M ! j < 18446744073709551616"
    using sz by simp
qed

lemma clean_up_rows_compact:
  assumes "compact_csr M" and "n \<le> rowPointersSize M" and "1 \<le> n"
  shows "for_loop [1..<n] clean_up_row (M, 0, 0, rowPointers M ! 0)
           = Some (M, rowPointers M ! (n - 1), 0, rowPointers M ! (n - 1))"
proof -
  let ?rp = "rowPointers M"
  have lens: "length (values M) = valuesSize M" "length (colIndices M) = valuesSize M"
      "length ?rp = rowPointersSize M" "?rp ! 0 = 0"
    and nz: "\<forall>v \<in> set (values M). v \<noteq> 0"
    using assms(1) by (simp_all add: compact_csr_def list_all_iff)
  have "\<exists>s'. for_loop [1..<n] clean_up_row (M, 0, 0, ?rp ! 0) = Some s' \<and>
             s' = (M, ?rp ! (n - 1), 0, ?rp ! (n - 1))"
  proof (rule for_loop_invariant
      [where P = "\<lambda>i s. s = (M, ?rp ! (i - 1), 0::nat, ?rp ! (i - 1))"])
    show "(M, 0, 0, ?rp ! 0) = (M, ?rp ! (1 - 1), 0::nat, ?rp ! (1 - 1))"
      using lens(4) by simp
    show "1 \<le> n" by (rule assms(3))
  next
    fix row t
    assume row: "1 \<le> row" "row < n" and t: "t = (M, ?rp ! (row - 1), 0::nat, ?rp ! (row - 1))"
    have row_lt: "row < rowPointersSize M"
      using row assms(2) by simp
    have mono: "?rp ! (row - 1) \<le> ?rp ! row"
      using compact_row_pointer_bounds(1) [OF assms(1) _ row_lt, of "row - 1"] by simp
    have le: "?rp ! row \<le> valuesSize M" and small: "?rp ! row < 18446744073709551616"
      using compact_row_pointer_bounds(2,3) [OF assms(1) _ row_lt, of row] by simp_all
    have inner: "for_loop [?rp ! (row - 1)..<?rp ! row] clean_up_entry (M, ?rp ! (row - 1), 0)
                   = Some (M, ?rp ! row, 0)"
      using le lens nz mono by (intro clean_up_entries_compact) simp_all
    have "clean_up_row row t = Some (M, ?rp ! row, 0, ?rp ! row)"
      using inner row_lt lens(3) small mono t
      by (simp add: clean_up_row_def rd_def wr_def u64_sub_0)
    then show "\<exists>t'. clean_up_row row t = Some t' \<and>
                    t' = (M, ?rp ! (Suc row - 1), 0, ?rp ! (Suc row - 1))"
      by simp
  qed
  then show ?thesis
    by simp
qed

lemma clean_up_matrix_arrays_compact:
  assumes "compact_csr M"
  shows "clean_up_matrix_arrays M = Some (M, valuesSize M)"
proof -
  have "1 \<le> rowPointersSize M" "length (rowPointers M) = rowPointersSize M"
      "rowPointers M ! (rowPointersSize M - 1) = valuesSize M"
    using assms by (simp_all add: compact_csr_def)
  then show ?thesis
    using clean_up_rows_compact [OF assms, of "rowPointersSize M"]
    by (simp add: clean_up_matrix_arrays_def rd_def)
qed

text \<open>
  Claim C5. The compactor run on a compact matrix (no stored value is zero, the row
  pointers start at 0, do not decrease and end at \<open>valuesSize\<close>) leaves the matrix as it
  is: values, column indices, row pointers, \<open>valuesSize\<close> and the dimensions are the same
  after \<open>clean_up_csr\<close> as before, whether or not the requests to shrink the arrays are
  granted (the return code is \<open>HEAP_MEMORY_ERROR\<close> when one is not).
\<close>

theorem compaction_of_compact_matrix:
  assumes "compact_csr M"
  shows "\<exists>code. clean_up_csr env M = Some (code, M)"
proof -
  have len: "length (values M) = valuesSize M" "length (colIndices M) = valuesSize M"
    using assms by (simp_all add: compact_csr_def)
  have same: "M\<lparr>values := take (valuesSize M) (values M)\<rparr> = M"
      "M\<lparr>colIndices := take (valuesSize M) (colIndices M), valuesSize := valuesSize M\<rparr> = M"
    using len by simp_all
  show ?thesis
    using clean_up_matrix_arrays_compact [OF assms] len same
    by (simp add: clean_up_csr_def realloc_def Let_def)
qed

theorem compaction_of_compact_matrix_witness:
  "compact_csr scenario_A \<and> clean_up_csr (env_ok True) scenario_A = Some (None, scenario_A)"
proof -
  have c: "compact_csr scenario_A"
    by (simp add: compact_csr_def scenario_A_def)
  from compaction_of_compact_matrix [OF c, of "env_ok True"]
  obtain code where code: "clean_up_csr (env_ok True) scenario_A = Some (code, scenario_A)" ..
  moreover have "\<exists>m. clean_up_csr (env_ok True) scenario_A = Some (None, m)"
    by (simp add: eval_kernels eval_basics scenario_A_def env_ok_def)
  ultimately show ?thesis
    using c by auto
qed

section \<open>The equality checker sorts its arguments in place\<close>

lemma sort_inner_eval:
  "sort_inner fuel oob beg col currentPositionOfValue j matrix =
     (if fuel = 0 then None
      else if j \<ge> beg then
        (if col < rd_oob oob (colIndices matrix) j then do {
           cs \<leftarrow> swap_cols (colIndices matrix) (valuesSize matrix) currentPositionOfValue j;
           vs \<leftarrow> swap_values (values matrix) (valuesSize matrix) currentPositionOfValue j;
           sort_inner (fuel - 1) oob beg col j (u64_sub j 1)
             (matrix\<lparr>colIndices := cs, values := vs\<rparr>) }
         else Some matrix)
      else Some matrix)"
  by (cases fuel) simp_all

lemma u64_sub_zero_Suc: "u64_sub 0 (Suc 0) = 18446744073709551615"
  by (simp add: u64_sub_def)

lemma sort_outer_eval:
  "sort_outer n fuel oob beg end' i matrix =
     (if n = 0 then None
      else if i \<le> end' then do {
        col \<leftarrow> rd (colIndices matrix) i;
        m \<leftarrow> sort_inner fuel oob beg col i (u64_sub i 1) matrix;
        sort_outer (n - 1) fuel oob beg end' (u64 (i + 1)) m }
      else Some matrix)"
  by (cases n) simp_all

text \<open>
  Claim C9 says that \<open>equals\<close> leaves its arguments unchanged. It does not: \<open>sort_matrix\<close>
  swaps the entries of the argument's own arrays. Called on \<open>unsorted_M\<close> (row 0 stored as
  columns 1, 0) and \<open>sorted_M\<close>, with zeros in the memory outside the arrays, \<open>equals\<close>
  returns 1 and leaves its first argument with the contents of \<open>sorted_M\<close>: its column
  indices are \<open>[0, 1]\<close> and no longer \<open>[1, 0]\<close>, its values \<open>[2, 1]\<close> and no longer \<open>[1, 2]\<close>.
\<close>

theorem equals_changes_its_argument:
  "equals 10 zero_memory zero_memory unsorted_M sorted_M = Some (1, sorted_M, sorted_M) \<and>
   colIndices unsorted_M = [1, 0] \<and> colIndices sorted_M = [0, 1] \<and>
   values unsorted_M = [1, 2] \<and> values sorted_M = [2, 1]"
  by (simp add: equals_def sort_matrix_def sort_outer_eval sort_inner_eval swap_cols_def
        swap_values_def rd_oob_def zero_memory_def u64_sub_zero_Suc eval_basics unsorted_M_def
          sorted_M_def)

lemma reordered_refl: "reordered M M"
  by (simp add: reordered_def)

lemma reordered_trans: "reordered M M' \<Longrightarrow> reordered M' M'' \<Longrightarrow> reordered M M''"
  by (simp add: reordered_def)

lemma swap_both_mset:
  assumes "swap_cols cs sz i j = Some cs'" and "swap_values vs sz i j = Some vs'"
  shows "length cs' = length cs \<and> length vs' = length vs \<and> mset (zip cs' vs') = mset (zip cs vs)"
proof (cases "i < sz \<and> j < sz")
  case False
  then show ?thesis
    using assms by (auto simp add: swap_cols_def swap_values_def split: if_splits)
next
  case True
  have ic: "i < length cs" and jc: "j < length cs" and cs': "cs' = cs[j := cs ! i, i := cs ! j]"
    using assms(1) True
    by (auto simp add: swap_cols_def rd_def wr_def Option.bind_eq_Some_conv split: if_splits)
  have iv: "i < length vs" and jv: "j < length vs" and vs': "vs' = vs[j := vs ! i, i := vs ! j]"
    using assms(2) True
    by (auto simp add: swap_values_def rd_def wr_def Option.bind_eq_Some_conv split: if_splits)
  have "zip cs' vs' = (zip cs vs)[j := zip cs vs ! i, i := zip cs vs ! j]"
    using ic jc iv jv by (simp add: cs' vs' zip_update [symmetric])
  moreover have "mset ((zip cs vs)[j := zip cs vs ! i, i := zip cs vs ! j]) = mset (zip cs vs)"
    using ic jc iv jv by (intro mset_swap) simp_all
  ultimately show ?thesis
    by (simp add: cs' vs')
qed

lemma sort_inner_reordered:
  "sort_inner fuel oob beg col cur j M = Some M' \<Longrightarrow> reordered M M'"
proof (induction fuel arbitrary: cur j M)
  case 0
  then show ?case by simp
next
  case (Suc fuel)
  show ?case
  proof (cases "j \<ge> beg \<and> col < rd_oob oob (colIndices M) j")
    case False
    then have "M' = M"
      using Suc.prems by (auto split: if_splits)
    then show ?thesis
      by (simp add: reordered_refl)
  next
    case True
    then obtain cs vs where cs: "swap_cols (colIndices M) (valuesSize M) cur j = Some cs"
      and vs: "swap_values (values M) (valuesSize M) cur j = Some vs"
      and rec: "sort_inner fuel oob beg col j (u64_sub j 1) (M\<lparr>colIndices := cs, values := vs\<rparr>)
                  = Some M'"
      using Suc.prems by (auto simp add: Option.bind_eq_Some_conv)
    have "reordered M (M\<lparr>colIndices := cs, values := vs\<rparr>)"
      using swap_both_mset [OF cs vs] by (simp add: reordered_def)
    moreover have "reordered (M\<lparr>colIndices := cs, values := vs\<rparr>) M'"
      using rec by (rule Suc.IH)
    ultimately show ?thesis
      by (rule reordered_trans)
  qed
qed

lemma sort_outer_reordered:
  "sort_outer n fuel oob beg end' i M = Some M' \<Longrightarrow> reordered M M'"
proof (induction n arbitrary: i M)
  case 0
  then show ?case by simp
next
  case (Suc n)
  show ?case
  proof (cases "i \<le> end'")
    case False
    then show ?thesis
      using Suc.prems by (simp add: reordered_refl)
  next
    case True
    then obtain col m where "sort_inner fuel oob beg col i (u64_sub i 1) M = Some m"
      and "sort_outer n fuel oob beg end' (u64 (i + 1)) m = Some M'"
      using Suc.prems by (auto simp add: Option.bind_eq_Some_conv)
    then show ?thesis
      using sort_inner_reordered Suc.IH reordered_trans by blast
  qed
qed

lemma sort_matrix_reordered:
  "sort_matrix fuel oob M beg end' = Some M' \<Longrightarrow> reordered M M'"
  unfolding sort_matrix_def by (rule sort_outer_reordered)

lemma for_loop_preserves:
  assumes "for_loop xs body s = Some s'" and "P s"
    and "\<And>i t t'. P t \<Longrightarrow> body i t = Some t' \<Longrightarrow> P t'"
  shows "P s'"
  using assms(1,2)
proof (induction xs arbitrary: s)
  case Nil
  then show ?case by simp
next
  case (Cons x xs)
  then obtain t where t: "body x s = Some t" and rest: "for_loop xs body t = Some s'"
    by (auto split: option.splits)
  have "P t"
    using Cons.prems(2) t by (rule assms(3))
  with rest show ?case
    by (rule Cons.IH)
qed

text \<open>
  Whatever the memory outside the arrays holds and however many passes the loops make:
  when \<open>equals\<close> returns, each argument has its fields and its row pointers unchanged,
  its arrays have the same lengths and they hold the same (column, value) pairs as before,
  counted with their multiplicity.
\<close>

lemma equals_reordered:
  assumes "equals fuel oob_a oob_b matrix_a matrix_b = Some (result, a', b')"
  shows "reordered matrix_a a' \<and> reordered matrix_b b'"
proof -
  let ?body = "\<lambda>i (a, b). do {
             rowBegA \<leftarrow> rd (rowPointers a) i;
             pa \<leftarrow> rd (rowPointers a) (i + 1);
             rowBegB \<leftarrow> rd (rowPointers b) i;
             pb \<leftarrow> rd (rowPointers b) (i + 1);
             a' \<leftarrow> sort_matrix fuel oob_a a rowBegA (u64_sub pa 1);
             b' \<leftarrow> sort_matrix fuel oob_b b rowBegB (u64_sub pb 1);
             Some (a', b') }"
  let ?P = "\<lambda>(a, b). reordered matrix_a a \<and> reordered matrix_b b"
  have step: "?P t'" if "?P t" and "?body i t = Some t'" for i t t'
  proof -
    obtain a b where t: "t = (a, b)" by (cases t)
    obtain a2 b2 where t': "t' = (a2, b2)" by (cases t')
    from that(2) obtain rowBegA pa rowBegB pb
      where "sort_matrix fuel oob_a a rowBegA (u64_sub pa 1) = Some a2"
        and "sort_matrix fuel oob_b b rowBegB (u64_sub pb 1) = Some b2"
      unfolding t t' by (auto simp add: Option.bind_eq_Some_conv)
    then have "reordered a a2" "reordered b b2"
      by (simp_all add: sort_matrix_reordered)
    then show ?thesis
      using that(1) reordered_trans unfolding t t' by auto
  qed
  show ?thesis
  proof (cases "noCols matrix_a \<noteq> noCols matrix_b \<or> noRows matrix_a \<noteq> noRows matrix_b \<or>
         valuesSize matrix_a \<noteq> valuesSize matrix_b \<or>
         rowPointersSize matrix_a \<noteq> rowPointersSize matrix_b")
    case True
    then have "a' = matrix_a" "b' = matrix_b"
      using assms by (simp_all add: equals_def)
    then show ?thesis
      by (simp add: reordered_refl)
  next
    case False
    then have "for_loop [0..<u64_sub (rowPointersSize matrix_a) 1] ?body (matrix_a, matrix_b)
                 = Some (a', b')"
      using assms
      by (auto simp add: equals_def Option.bind_eq_Some_conv split: if_splits)
    from for_loop_preserves [where P = ?P, OF this] step
    show ?thesis
      by (simp add: reordered_refl)
  qed
qed

section \<open>From dense to CSR\<close>

lemma nonzero_entries_take_Suc:
  assumes "j < length row"
  shows "nonzero_entries (take (Suc j) row) =
           nonzero_entries (take j row) @ (if row ! j \<noteq> 0 then [(j, row ! j)] else [])"
proof -
  have len: "length (take (Suc j) row) = Suc j" "length (take j row) = j"
    using assms by simp_all
  have z: "zip [0..<Suc j] (take (Suc j) row) = zip [0..<j] (take j row) @ [(j, row ! j)]"
    using assms by (simp add: take_Suc_conv_app_nth)
  show ?thesis
    unfolding nonzero_entries_def len z by simp
qed

lemma nonzero_entries_Nil [simp]: "nonzero_entries [] = []"
  by (simp add: nonzero_entries_def)

lemma entries_before_0 [simp]: "entries_before D 0 = []"
  by (simp add: entries_before_def)

lemma entries_before_Suc:
  "i < length D \<Longrightarrow> entries_before D (Suc i) = entries_before D i @ nonzero_entries (D ! i)"
  by (simp add: entries_before_def take_Suc_conv_app_nth)

lemma length_nonzero_entries_take:
  "length (nonzero_entries (take j row)) \<le> length (nonzero_entries row)"
proof (cases "j \<le> length row")
  case False
  then show ?thesis by simp
next
  case True
  then show ?thesis
  proof (induction rule: inc_induct)
    case base
    show ?case by simp
  next
    case (step n)
    have "length (nonzero_entries (take n row)) \<le> length (nonzero_entries (take (Suc n) row))"
      using step.hyps by (simp add: nonzero_entries_take_Suc)
    with step.IH show ?case by simp
  qed
qed

lemma length_entries_before_mono:
  assumes "i \<le> k"
  shows "length (entries_before D i) \<le> length (entries_before D k)"
proof -
  have "take k D = take i D @ drop i (take k D)"
    using assms by (metis append_take_drop_id min.absorb1 take_take)
  then have "entries_before D k = entries_before D i @ concat (map nonzero_entries (drop i (take k D)))"
    unfolding entries_before_def by (metis concat_append map_append)
  then show ?thesis
    by simp
qed

text \<open>The first pass of \<open>ordinary_to_csr\<close> counts the nonzero cells.\<close>

lemma count_row:
  assumes "i < length D" and "length (D ! i) = cols"
  shows "for_loop [0..<cols]
           (\<lambda>j n. do { row \<leftarrow> rd D i; v \<leftarrow> rd row j; Some (if v \<noteq> 0 then n + 1 else n) }) n
         = Some (n + length (nonzero_entries (D ! i)))"
proof -
  let ?body = "\<lambda>j n. do { row \<leftarrow> rd D i; v \<leftarrow> rd row j; Some (if v \<noteq> 0 then n + 1 else n) }"
  have "\<exists>s'. for_loop [0..<cols] ?body n = Some s' \<and>
              s' = n + length (nonzero_entries (take cols (D ! i)))"
  proof (rule for_loop_invariant
      [where P = "\<lambda>j s. s = n + length (nonzero_entries (take j (D ! i)))"])
    show "n = n + length (nonzero_entries (take 0 (D ! i)))" by simp
    show "0 \<le> cols" by simp
  next
    fix j t
    assume j: "j < cols" and t: "t = n + length (nonzero_entries (take j (D ! i)))"
    have "?body j t = Some (n + length (nonzero_entries (take (Suc j) (D ! i))))"
      using assms j t by (simp add: rd_def nonzero_entries_take_Suc)
    then show "\<exists>t'. ?body j t = Some t' \<and> t' = n + length (nonzero_entries (take (Suc j) (D ! i)))"
      by simp
  qed
  then show ?thesis
    using assms(2) by simp
qed

lemma count_rows:
  assumes "dense_shape rows cols D"
  shows "for_loop [0..<rows]
           (\<lambda>i n. for_loop [0..<cols]
              (\<lambda>j n. do { row \<leftarrow> rd D i; v \<leftarrow> rd row j; Some (if v \<noteq> 0 then n + 1 else n) }) n)
           0
         = Some (length (entries_before D rows))"
proof -
  have len: "length D = rows" and cols: "\<And>i. i < rows \<Longrightarrow> length (D ! i) = cols"
    using assms by (simp_all add: dense_shape_def list_all_length)
  let ?body = "\<lambda>i n. for_loop [0..<cols]
              (\<lambda>j n. do { row \<leftarrow> rd D i; v \<leftarrow> rd row j; Some (if v \<noteq> 0 then n + 1 else n) }) n"
  have "\<exists>s'. for_loop [0..<rows] ?body 0 = Some s' \<and> s' = length (entries_before D rows)"
  proof (rule for_loop_invariant [where P = "\<lambda>i s. s = length (entries_before D i)"])
    show "0 = length (entries_before D 0)" by simp
    show "0 \<le> rows" by simp
  next
    fix i t
    assume i: "i < rows" and t: "t = length (entries_before D i)"
    have "?body i t = Some (t + length (nonzero_entries (D ! i)))"
      using i len cols by (intro count_row) simp_all
    then show "\<exists>t'. ?body i t = Some t' \<and> t' = length (entries_before D (Suc i))"
      using i len t by (simp add: entries_before_Suc)
  qed
  then show ?thesis
    by simp
qed

lemma filled_step:
  assumes "filled N es vs cs c" and "length es < N"
  shows "filled N (es @ [(j, v)]) (vs[c := v]) (cs[c := j]) (c + 1)"
proof -
  have c: "c = length es" and lv: "length vs = N" and lc: "length cs = N"
    and tc: "take c cs = map fst es" and tv: "take c vs = map snd es"
    using assms(1) unfolding filled_def by blast+
  have "take (Suc c) (vs[c := v]) = take c vs @ [v]" "take (Suc c) (cs[c := j]) = take c cs @ [j]"
    using c lv lc assms(2) by (simp_all add: take_Suc_conv_app_nth)
  then have "take (c + 1) (cs[c := j]) = map fst (es @ [(j, v)])"
      "take (c + 1) (vs[c := v]) = map snd (es @ [(j, v)])"
    using tc tv by simp_all
  then show ?thesis
    unfolding filled_def using c lv lc by simp
qed

lemma fill_row:
  fixes D :: "('a::zero) list list" and rp :: "nat list"
  assumes shape: "dense_shape rows cols D" and i: "i < rows"
    and inv: "filled (length (entries_before D rows)) (entries_before D i) vs cs c"
  shows "\<exists>vs' cs' c'.
           for_loop [0..<cols]
             (\<lambda>j (vs, cs, rp, c). do {
                row \<leftarrow> rd D i;
                v \<leftarrow> rd row j;
                (if v \<noteq> 0 then do {
                   vs' \<leftarrow> wr vs c v;
                   cs' \<leftarrow> wr cs c j;
                   Some (vs', cs', rp, c + 1) }
                 else Some (vs, cs, rp, c)) })
             (vs, cs, rp, c) = Some (vs', cs', rp, c') \<and>
           filled (length (entries_before D rows)) (entries_before D (Suc i)) vs' cs' c'"
proof -
  let ?N = "length (entries_before D rows)"
  let ?body = "\<lambda>j (vs, cs, rp :: nat list, c). do {
                row \<leftarrow> rd D i;
                v \<leftarrow> rd row j;
                (if v \<noteq> 0 then do {
                   vs' \<leftarrow> wr vs c v;
                   cs' \<leftarrow> wr cs c j;
                   Some (vs', cs', rp, c + 1) }
                 else Some (vs, cs, rp, c)) }"
  let ?P = "\<lambda>j (vs', cs', rp', c').
              rp' = rp \<and> filled ?N (entries_before D i @ nonzero_entries (take j (D ! i))) vs' cs' c'"
  have len: "length D = rows" and cols: "length (D ! i) = cols"
    using shape i by (simp_all add: dense_shape_def list_all_length)
  have bound: "length (entries_before D i) + length (nonzero_entries (take j (D ! i))) \<le> ?N" for j
  proof -
    have "length (entries_before D (Suc i)) \<le> ?N"
      using i by (intro length_entries_before_mono) simp
    moreover have "length (entries_before D (Suc i))
                     = length (entries_before D i) + length (nonzero_entries (D ! i))"
      using i len by (simp add: entries_before_Suc)
    ultimately show ?thesis
      using length_nonzero_entries_take [of j "D ! i"] by linarith
  qed
  have "\<exists>s'. for_loop [0..<cols] ?body (vs, cs, rp, c) = Some s' \<and> ?P cols s'"
  proof (rule for_loop_invariant [where P = ?P])
    show "?P 0 (vs, cs, rp, c)"
      using inv by simp
    show "0 \<le> cols" by simp
  next
    fix j t
    assume j: "j < cols" and t: "?P j t"
    obtain vs1 cs1 rp1 c1 where t_eq: "t = (vs1, cs1, rp1, c1)"
      by (cases t)
    let ?es = "entries_before D i @ nonzero_entries (take j (D ! i))"
    have rp1: "rp1 = rp" and f: "filled ?N ?es vs1 cs1 c1"
      using t t_eq by simp_all
    have jl: "j < length (D ! i)"
      using j cols by simp
    show "\<exists>t'. ?body j t = Some t' \<and> ?P (Suc j) t'"
    proof (cases "D ! i ! j = 0")
      case True
      then have "?body j t = Some (vs1, cs1, rp, c1)"
        using i len jl t_eq rp1 by (simp add: rd_def)
      moreover have "?P (Suc j) (vs1, cs1, rp, c1)"
        using f True jl by (simp add: nonzero_entries_take_Suc)
      ultimately show ?thesis
        by blast
    next
      case False
      have "length (nonzero_entries (take (Suc j) (D ! i)))
              = Suc (length (nonzero_entries (take j (D ! i))))"
        using False jl by (simp add: nonzero_entries_take_Suc)
      then have room: "length ?es < ?N"
        using bound [of "Suc j"] by simp
      then have c1: "c1 < length vs1" "c1 < length cs1"
        using f by (simp_all add: filled_def)
      have "?body j t = Some (vs1[c1 := D ! i ! j], cs1[c1 := j], rp, c1 + 1)"
        using i len jl t_eq rp1 False c1 by (simp add: rd_def wr_def)
      moreover have "?P (Suc j) (vs1[c1 := D ! i ! j], cs1[c1 := j], rp, c1 + 1)"
        using filled_step [OF f room, of j "D ! i ! j"] False jl
        by (simp add: nonzero_entries_take_Suc)
      ultimately show ?thesis
        by blast
    qed
  qed
  then obtain s' where s': "for_loop [0..<cols] ?body (vs, cs, rp, c) = Some s'" "?P cols s'"
    by blast
  obtain vs' cs' rp' c' where s'_eq: "s' = (vs', cs', rp', c')"
    by (cases s')
  have "rp' = rp" "filled ?N (entries_before D (Suc i)) vs' cs' c'"
    using s'(2) s'_eq cols i len by (simp_all add: entries_before_Suc)
  then show ?thesis
    using s'(1) s'_eq by blast
qed

lemma fill_rows:
  fixes D :: "('a::zero) list list"
  assumes shape: "dense_shape rows cols D"
    and init: "length vs0 = length (entries_before D rows)"
      "length cs0 = length (entries_before D rows)" "length rp0 = rows + 1" "rp0 ! 0 = 0"
  shows "for_loop [0..<rows]
           (\<lambda>i st. do {
              (vs, cs, rp, c) \<leftarrow> for_loop [0..<cols]
                (\<lambda>j (vs, cs, rp, c). do {
                   row \<leftarrow> rd D i;
                   v \<leftarrow> rd row j;
                   (if v \<noteq> 0 then do {
                      vs' \<leftarrow> wr vs c v;
                      cs' \<leftarrow> wr cs c j;
                      Some (vs', cs', rp, c + 1) }
                    else Some (vs, cs, rp, c)) })
                st;
              rp' \<leftarrow> wr rp (i + 1) c;
              Some (vs, cs, rp', c) })
           (vs0, cs0, rp0, 0)
         = Some (map snd (entries_before D rows), map fst (entries_before D rows),
                 map (\<lambda>k. length (entries_before D k)) [0..<rows + 1],
                 length (entries_before D rows))"
proof -
  let ?N = "length (entries_before D rows)"
  let ?inner = "\<lambda>i j (vs, cs, rp :: nat list, c). do {
                   row \<leftarrow> rd D i;
                   v \<leftarrow> rd row j;
                   (if v \<noteq> 0 then do {
                      vs' \<leftarrow> wr vs c v;
                      cs' \<leftarrow> wr cs c j;
                      Some (vs', cs', rp, c + 1) }
                    else Some (vs, cs, rp, c)) }"
  let ?body = "\<lambda>i st. do {
              (vs, cs, rp, c) \<leftarrow> for_loop [0..<cols] (?inner i) st;
              rp' \<leftarrow> wr rp (i + 1) c;
              Some (vs, cs, rp', c) }"
  let ?Q = "\<lambda>i (vs, cs, rp, c).
              filled ?N (entries_before D i) vs cs c \<and> length rp = rows + 1 \<and>
              take (Suc i) rp = map (\<lambda>k. length (entries_before D k)) [0..<Suc i]"
  have "\<exists>s'. for_loop [0..<rows] ?body (vs0, cs0, rp0, 0) = Some s' \<and> ?Q rows s'"
  proof (rule for_loop_invariant [where P = ?Q])
    have "take (Suc 0) rp0 = [rp0 ! 0]"
      using init(3) by (cases rp0) simp_all
    then show "?Q 0 (vs0, cs0, rp0, 0)"
      using init by (simp add: filled_def)
    show "0 \<le> rows" by simp
  next
    fix i t
    assume i: "i < rows" and t: "?Q i t"
    obtain vs cs rp c where t_eq: "t = (vs, cs, rp, c)"
      by (cases t)
    have f: "filled ?N (entries_before D i) vs cs c" and lrp: "length rp = rows + 1"
      and trp: "take (Suc i) rp = map (\<lambda>k. length (entries_before D k)) [0..<Suc i]"
      using t t_eq by simp_all
    from fill_row [OF shape i f, of rp]
    obtain vs' cs' c' where inner: "for_loop [0..<cols] (?inner i) (vs, cs, rp, c) = Some (vs', cs', rp, c')"
      and f': "filled ?N (entries_before D (Suc i)) vs' cs' c'"
      by blast
    have c': "c' = length (entries_before D (Suc i))"
      using f' unfolding filled_def by blast
    have "?body i t = Some (vs', cs', rp[Suc i := c'], c')"
      using inner i lrp t_eq by (simp add: wr_def)
    moreover have "take (Suc (Suc i)) (rp[Suc i := c'])
                     = map (\<lambda>k. length (entries_before D k)) [0..<Suc (Suc i)]"
    proof -
      have "take (Suc (Suc i)) (rp[Suc i := c']) = take (Suc i) (rp[Suc i := c']) @ [c']"
        using i lrp by (simp add: take_Suc_conv_app_nth)
      also have "take (Suc i) (rp[Suc i := c']) = take (Suc i) rp"
        by simp
      finally show ?thesis
        using trp c' by simp
    qed
    ultimately show "\<exists>t'. ?body i t = Some t' \<and> ?Q (Suc i) t'"
      using f' lrp by simp
  qed
  then obtain s' where s': "for_loop [0..<rows] ?body (vs0, cs0, rp0, 0) = Some s'" "?Q rows s'"
    by blast
  obtain vs cs rp c where s'_eq: "s' = (vs, cs, rp, c)"
    by (cases s')
  have f: "filled ?N (entries_before D rows) vs cs c" and lrp: "length rp = rows + 1"
    and trp: "take (Suc rows) rp = map (\<lambda>k. length (entries_before D k)) [0..<Suc rows]"
    using s'(2) s'_eq by simp_all
  have c: "c = ?N" and lv: "length vs = ?N" and lc: "length cs = ?N"
    and tc: "take c cs = map fst (entries_before D rows)"
    and tv: "take c vs = map snd (entries_before D rows)"
    using f unfolding filled_def by blast+
  have "vs = map snd (entries_before D rows)" "cs = map fst (entries_before D rows)"
    using tc tv c lv lc by simp_all
  moreover have "rp = map (\<lambda>k. length (entries_before D k)) [0..<rows + 1]"
    using trp lrp by simp
  ultimately show ?thesis
    using s'(1) s'_eq c by simp
qed

text \<open>
  \<open>ordinary_to_csr\<close> on a dense matrix of the right shape fails for want of memory or
  returns the CSR matrix of the dense matrix; it does not fault.
\<close>

lemma ordinary_to_csr_result:
  fixes D :: "('a::zero) list list"
  assumes "dense_shape rows cols D"
  shows "ordinary_to_csr env rows cols D = Some None \<or>
         ordinary_to_csr env rows cols D = Some (Some (dense_csr rows cols D))"
proof -
  let ?N = "length (entries_before D rows)"
  have rp0: "wr (map (fresh_u64 env) [0..<rows + 1]) 0 0
               = Some ((map (fresh_u64 env) [0..<rows + 1])[0 := 0])"
    by (simp add: wr_def)
  have fill: "for_loop [0..<rows]
           (\<lambda>i st. do {
              (vs, cs, rp, c) \<leftarrow> for_loop [0..<cols]
                (\<lambda>j (vs, cs, rp, c). do {
                   row \<leftarrow> rd D i;
                   v \<leftarrow> rd row j;
                   (if v \<noteq> 0 then do {
                      vs' \<leftarrow> wr vs c v;
                      cs' \<leftarrow> wr cs c j;
                      Some (vs', cs', rp, c + 1) }
                    else Some (vs, cs, rp, c)) })
                st;
              rp' \<leftarrow> wr rp (i + 1) c;
              Some (vs, cs, rp', c) })
           (map (fresh_float env) [0..<?N], map (fresh_u64 env) [0..<?N],
            (map (fresh_u64 env) [0..<rows + 1])[0 := 0], 0)
         = Some (map snd (entries_before D rows), map fst (entries_before D rows),
                 map (\<lambda>k. length (entries_before D k)) [0..<rows + 1], ?N)"
    by (rule fill_rows [OF assms]) (simp_all del: upt_Suc)
  show ?thesis
    unfolding ordinary_to_csr_def count_rows [OF assms] rp0 Option.bind.simps fill
    by (simp add: dense_csr_def del: upt_Suc)
qed

section \<open>From CSR to dense\<close>

lemma scatter_Nil [simp]: "scatter [] row = row"
  by (simp add: scatter_def)

lemma scatter_snoc: "scatter (es @ [(c, v)]) row = (scatter es row)[c := v]"
  by (simp add: scatter_def)

lemma length_scatter [simp]: "length (scatter es row) = length row"
proof (induction es rule: rev_induct)
  case Nil
  show ?case by simp
next
  case (snoc e es)
  then show ?case by (cases e) (simp add: scatter_snoc)
qed

lemma row_entries_upto_Suc:
  "b \<le> j \<Longrightarrow> map (\<lambda>k. (cs ! k, vs ! k)) [b..<Suc j] = map (\<lambda>k. (cs ! k, vs ! k)) [b..<j] @ [(cs ! j, vs ! j)]"
  by simp

text \<open>The scatter loop of one row of \<open>csr_to_ordinary\<close>.\<close>

lemma scatter_row:
  fixes ordinary :: "'a list list"
  assumes i: "i < length ordinary" and cols: "length (ordinary ! i) = cols"
    and be: "b \<le> e" "e \<le> length cs" "e \<le> length vs"
    and range: "\<forall>k. b \<le> k \<and> k < e \<longrightarrow> cs ! k < cols"
  shows "for_loop [b..<e]
           (\<lambda>j ordinary. do {
              col \<leftarrow> rd cs j;
              v \<leftarrow> rd vs j;
              row \<leftarrow> rd ordinary i;
              row' \<leftarrow> wr row col v;
              wr ordinary i row' })
           ordinary
         = Some (ordinary[i := scatter (map (\<lambda>k. (cs ! k, vs ! k)) [b..<e]) (ordinary ! i)])"
proof -
  let ?body = "\<lambda>j ordinary. do {
              col \<leftarrow> rd cs j;
              v \<leftarrow> rd vs j;
              row \<leftarrow> rd ordinary i;
              row' \<leftarrow> wr row col v;
              wr ordinary i row' }"
  let ?P = "\<lambda>j ord'. ord' = ordinary[i := scatter (map (\<lambda>k. (cs ! k, vs ! k)) [b..<j]) (ordinary ! i)]"
  have "\<exists>s'. for_loop [b..<e] ?body ordinary = Some s' \<and> ?P e s'"
  proof (rule for_loop_invariant [where P = ?P])
    show "?P b ordinary" by simp
    show "b \<le> e" by (rule be(1))
  next
    fix j t
    assume j: "b \<le> j" "j < e" and t: "?P j t"
    let ?es = "map (\<lambda>k. (cs ! k, vs ! k)) [b..<j]"
    have jl: "j < length cs" "j < length vs" and c: "cs ! j < cols"
      using j be range by simp_all
    have ti: "t ! i = scatter ?es (ordinary ! i)" and lt: "length t = length ordinary"
      using t i by simp_all
    have "?body j t = Some (t[i := (t ! i)[cs ! j := vs ! j]])"
      using jl c i cols ti lt by (simp add: rd_def wr_def)
    moreover have "t[i := (t ! i)[cs ! j := vs ! j]]
                     = ordinary[i := scatter (map (\<lambda>k. (cs ! k, vs ! k)) [b..<Suc j]) (ordinary ! i)]"
      unfolding row_entries_upto_Suc [OF j(1)] scatter_snoc ti using t by simp
    ultimately show "\<exists>t'. ?body j t = Some t' \<and> ?P (Suc j) t'"
      by simp
  qed
  then show ?thesis
    by simp
qed

lemma csr_shape_bounds:
  assumes "csr_shape M" and "i < noRows M"
  shows "rowPointers M ! i \<le> rowPointers M ! (i + 1)"
    and "rowPointers M ! (i + 1) \<le> length (colIndices M)"
    and "rowPointers M ! (i + 1) \<le> length (values M)"
    and "\<forall>k. rowPointers M ! i \<le> k \<and> k < rowPointers M ! (i + 1) \<longrightarrow> colIndices M ! k < noCols M"
proof -
  have len: "length (rowPointers M) = noRows M + 1" and srt: "sorted (rowPointers M)"
    and lv: "rowPointers M ! noRows M \<le> length (values M)"
    and lc: "rowPointers M ! noRows M \<le> length (colIndices M)"
    and cols: "\<And>k. k < rowPointers M ! noRows M \<Longrightarrow> colIndices M ! k < noCols M"
    using assms(1) by (simp_all add: csr_shape_def list_all_iff)
  show "rowPointers M ! i \<le> rowPointers M ! (i + 1)"
    using srt len assms(2) by (intro sorted_nth_mono) simp_all
  have up: "rowPointers M ! (i + 1) \<le> rowPointers M ! noRows M"
    using srt len assms(2) by (intro sorted_nth_mono) simp_all
  then show "rowPointers M ! (i + 1) \<le> length (colIndices M)"
      "rowPointers M ! (i + 1) \<le> length (values M)"
    using lv lc by simp_all
  show "\<forall>k. rowPointers M ! i \<le> k \<and> k < rowPointers M ! (i + 1) \<longrightarrow> colIndices M ! k < noCols M"
    using up cols by (meson less_le_trans)
qed

text \<open>
  \<open>csr_to_ordinary\<close> on a matrix of CSR shape fails for want of memory or returns the
  dense matrix of the CSR matrix; it does not fault.
\<close>

lemma csr_to_ordinary_result:
  fixes M :: "('a::zero) Matrix"
  assumes "csr_shape M"
  shows "csr_to_ordinary env M = Some None \<or> csr_to_ordinary env M = Some (Some (csr_dense M))"
proof -
  let ?rows = "noRows M" and ?cols = "noCols M"
  let ?z = "replicate ?cols (0::'a)"
  let ?target = "\<lambda>i. scatter (row_entries M i) ?z"
  let ?body = "\<lambda>i ordinary. do {
             b \<leftarrow> rd (rowPointers M) i;
             e \<leftarrow> rd (rowPointers M) (i + 1);
             for_loop [b..<e]
               (\<lambda>j ordinary. do {
                  col \<leftarrow> rd (colIndices M) j;
                  v \<leftarrow> rd (values M) j;
                  row \<leftarrow> rd ordinary i;
                  row' \<leftarrow> wr row col v;
                  wr ordinary i row' })
               ordinary }"
  let ?P = "\<lambda>i ord. ord = map ?target [0..<i] @ replicate (?rows - i) ?z"
  have len: "length (rowPointers M) = ?rows + 1"
    using assms by (simp add: csr_shape_def)
  have "\<exists>s'. for_loop [0..<?rows] ?body (replicate ?rows ?z) = Some s' \<and> ?P ?rows s'"
  proof (rule for_loop_invariant [where P = ?P])
    show "?P 0 (replicate ?rows ?z)" by simp
    show "0 \<le> ?rows" by simp
  next
    fix i t
    assume i: "i < ?rows" and t: "?P i t"
    have lt: "length t = ?rows" and ti: "t ! i = ?z"
      using t i by (simp_all add: nth_append)
    note b = csr_shape_bounds [OF assms i]
    have "for_loop [rowPointers M ! i..<rowPointers M ! (i + 1)]
               (\<lambda>j ordinary. do {
                  col \<leftarrow> rd (colIndices M) j;
                  v \<leftarrow> rd (values M) j;
                  row \<leftarrow> rd ordinary i;
                  row' \<leftarrow> wr row col v;
                  wr ordinary i row' })
               t
          = Some (t[i := scatter (map (\<lambda>k. (colIndices M ! k, values M ! k))
                            [rowPointers M ! i..<rowPointers M ! (i + 1)]) (t ! i)])"
      using i lt ti b by (intro scatter_row) simp_all
    then have run: "?body i t = Some (t[i := ?target i])"
      using i len ti by (simp add: rd_def row_entries_def)
    have "replicate (?rows - i) ?z = ?z # replicate (?rows - Suc i) ?z"
      using i by (simp add: Suc_diff_Suc flip: replicate_Suc)
    then have "t[i := ?target i] = map ?target [0..<Suc i] @ replicate (?rows - Suc i) ?z"
      using t by (simp add: list_update_append)
    with run show "\<exists>t'. ?body i t = Some t' \<and> ?P (Suc i) t'"
      by simp
  qed
  then have "for_loop [0..<?rows] ?body (replicate ?rows ?z) = Some (csr_dense M)"
    by (simp add: csr_dense_def)
  then show ?thesis
    unfolding csr_to_ordinary_def by simp
qed

section \<open>The round trip from dense to CSR and back\<close>

lemma scatter_nth_notin: "k \<notin> fst ` set es \<Longrightarrow> scatter es row ! k = row ! k"
proof (induction es rule: rev_induct)
  case Nil
  show ?case by simp
next
  case (snoc e es)
  obtain c v where e: "e = (c, v)" by (cases e)
  have "k \<noteq> c" "k \<notin> fst ` set es"
    using snoc.prems e by auto
  then show ?case
    using snoc.IH e by (simp add: scatter_snoc)
qed


lemma set_nonzero_entries:
  "(k, v) \<in> set (nonzero_entries row) \<longleftrightarrow> k < length row \<and> v = row ! k \<and> v \<noteq> 0"
proof -
  have "zip [0..<length row] row = map (\<lambda>i. (i, row ! i)) [0..<length row]"
    by (rule nth_equalityI) simp_all
  then show ?thesis
    by (auto simp add: nonzero_entries_def)
qed

lemma distinct_nonzero_entries: "distinct (map fst (nonzero_entries row))"
proof -
  have "map fst (zip [0..<length row] row) = [0..<length row]"
    by simp
  then have "distinct (map fst (zip [0..<length row] row))"
    by simp
  then show ?thesis
    unfolding nonzero_entries_def by (rule distinct_map_filter)
qed









section \<open>The round trip from CSR to dense and back\<close>


lemma valid_csr_facts:
  assumes "valid_csr M"
  shows "length (values M) = valuesSize M" and "length (colIndices M) = valuesSize M"
    and "length (rowPointers M) = noRows M + 1" and "rowPointers M ! 0 = 0"
    and "sorted (rowPointers M)" and "rowPointers M ! noRows M = valuesSize M"
    and "\<And>k. k < valuesSize M \<Longrightarrow> colIndices M ! k < noCols M"
    and "\<And>k. k < valuesSize M \<Longrightarrow> values M ! k \<noteq> 0"
    and "valuesSize M < 18446744073709551616"
    and "noRows M < 18446744073709551615" and "noCols M < 18446744073709551616"
  using assms by (auto simp add: valid_csr_def compact_csr_def list_all_length)

lemma valid_csr_shape: "valid_csr M \<Longrightarrow> csr_shape M"
  unfolding csr_shape_def
  using valid_csr_facts(1-3,5-7) [of M] by (simp add: list_all_iff)

lemma valid_row_bounds:
  assumes "valid_csr M" and "i < noRows M"
  shows "rowPointers M ! i \<le> rowPointers M ! (i + 1)"
    and "rowPointers M ! (i + 1) \<le> valuesSize M"
  using csr_shape_bounds(1,2) [OF valid_csr_shape [OF assms(1)] assms(2)]
    valid_csr_facts(2) [OF assms(1)] by simp_all








section \<open>The size prediction\<close>

lemma row_lengths_loop:
  assumes "valid_csr B"
  shows "for_loop [0..<noRows B]
           (\<lambda>rowB arr. do {
              rowBBeg \<leftarrow> rd (rowPointers B) rowB;
              rowBEnd \<leftarrow> rd (rowPointers B) (rowB + 1);
              wr arr rowB (u64_sub rowBEnd rowBBeg) })
           (replicate (noRows B) 0)
         = Some (map (\<lambda>r. rowPointers B ! (r + 1) - rowPointers B ! r) [0..<noRows B])"
proof -
  let ?rp = "rowPointers B" and ?n = "noRows B"
  let ?len = "\<lambda>r. ?rp ! (r + 1) - ?rp ! r"
  let ?body = "\<lambda>rowB arr. do {
              rowBBeg \<leftarrow> rd ?rp rowB;
              rowBEnd \<leftarrow> rd ?rp (rowB + 1);
              wr arr rowB (u64_sub rowBEnd rowBBeg) }"
  let ?P = "\<lambda>i arr. arr = map ?len [0..<i] @ replicate (?n - i) 0"
  have "\<exists>s'. for_loop [0..<?n] ?body (replicate ?n 0) = Some s' \<and> ?P ?n s'"
  proof (rule for_loop_invariant [where P = ?P])
    show "?P 0 (replicate ?n 0)" by simp
    show "0 \<le> ?n" by simp
  next
    fix i t
    assume i: "i < ?n" and t: "?P i t"
    have le: "?rp ! i \<le> ?rp ! (i + 1)" and up: "?rp ! (i + 1) \<le> valuesSize B"
      using valid_row_bounds [OF assms i] by simp_all
    have small: "?rp ! (i + 1) < 18446744073709551616"
      using up valid_csr_facts(9) [OF assms] by simp
    have "?body i t = Some (t[i := ?len i])"
      using i t valid_csr_facts(3) [OF assms] le small
      by (simp add: rd_def wr_def u64_sub_small)
    moreover have "replicate (?n - i) (0::nat) = 0 # replicate (?n - Suc i) 0"
      using i by (simp add: Suc_diff_Suc flip: replicate_Suc)
    then have "t[i := ?len i] = map ?len [0..<Suc i] @ replicate (?n - Suc i) 0"
      using t by (simp add: list_update_append)
    ultimately show "\<exists>t'. ?body i t = Some t' \<and> ?P (Suc i) t'"
      by simp
  qed
  then show ?thesis
    by simp
qed

lemma count_list_take_Suc:
  "k < length xs \<Longrightarrow>
     count_list (take (Suc k) xs) c = count_list (take k xs) c + (if xs ! k = c then 1 else 0)"
  by (simp add: take_Suc_conv_app_nth)

lemma count_list_take_le: "count_list (take k xs) c \<le> length xs"
proof -
  have "count_list (take k xs) c \<le> length (take k xs)"
    by (rule count_le_length)
  then show ?thesis
    by simp
qed

lemma column_counts_loop:
  assumes "valid_csr A"
  shows "for_loop [0..<valuesSize A]
           (\<lambda>valuesIndex arr. do {
              column \<leftarrow> rd (colIndices A) valuesIndex;
              old \<leftarrow> rd arr column;
              wr arr column (u64 (old + 1)) })
           (replicate (noCols A) 0)
         = Some (map (count_list (colIndices A)) [0..<noCols A])"
proof -
  let ?cs = "colIndices A" and ?n = "valuesSize A" and ?m = "noCols A"
  let ?body = "\<lambda>valuesIndex arr. do {
              column \<leftarrow> rd ?cs valuesIndex;
              old \<leftarrow> rd arr column;
              wr arr column (u64 (old + 1)) }"
  let ?P = "\<lambda>k arr. arr = map (count_list (take k ?cs)) [0..<?m]"
  have len: "length ?cs = ?n" and small: "?n < 18446744073709551616"
    using valid_csr_facts(2,9) [OF assms] by simp_all
  have "\<exists>s'. for_loop [0..<?n] ?body (replicate ?m 0) = Some s' \<and> ?P ?n s'"
  proof (rule for_loop_invariant [where P = ?P])
    show "?P 0 (replicate ?m 0)"
      by (rule nth_equalityI) simp_all
    show "0 \<le> ?n" by simp
  next
    fix k t
    assume k: "k < ?n" and t: "?P k t"
    let ?c = "?cs ! k"
    have c: "?c < ?m"
      using valid_csr_facts(7) [OF assms k] .
    have "count_list (take (Suc k) ?cs) ?c \<le> ?n"
      using count_list_take_le [of "Suc k" ?cs ?c] len by simp
    then have "count_list (take k ?cs) ?c + 1 < 18446744073709551616"
      using small k len by (simp add: count_list_take_Suc)
    then have "?body k t = Some (t[?c := count_list (take k ?cs) ?c + 1])"
      using k len c t by (simp add: rd_def wr_def u64_small)
    moreover have "t[?c := count_list (take k ?cs) ?c + 1] = map (count_list (take (Suc k) ?cs)) [0..<?m]"
      using t c k len by (intro nth_equalityI) (simp_all add: nth_list_update count_list_take_Suc)
    ultimately show "\<exists>t'. ?body k t = Some t' \<and> ?P (Suc k) t'"
      by simp
  qed
  then show ?thesis
    using len by simp
qed

lemma sum_list_prefix_le:
  fixes f :: "nat \<Rightarrow> nat"
  assumes "i \<le> n"
  shows "sum_list (map f [0..<i]) \<le> sum_list (map f [0..<n])"
proof -
  have "[0..<n] = [0..<i] @ [i..<n]"
    using assms by (metis le0 upt_add_eq_append le_add_diff_inverse)
  then have "sum_list (map f [0..<n]) = sum_list (map f [0..<i]) + sum_list (map f [i..<n])"
    by (metis map_append sum_list_append)
  then show ?thesis
    by simp
qed

lemma products_loop:
  fixes bs as :: "nat list"
  assumes "n \<le> length bs" and "n \<le> length as"
    and "sum_list (map (\<lambda>c. as ! c * bs ! c) [0..<n]) < 18446744073709551616"
  shows "for_loop [0..<n]
           (\<lambda>index acc. do {
              b \<leftarrow> rd bs index;
              a \<leftarrow> rd as index;
              Some (u64 (acc + u64 (b * a))) })
           0
         = Some (sum_list (map (\<lambda>c. as ! c * bs ! c) [0..<n]))"
proof -
  let ?f = "\<lambda>c. as ! c * bs ! c"
  let ?body = "\<lambda>index acc. do {
              b \<leftarrow> rd bs index;
              a \<leftarrow> rd as index;
              Some (u64 (acc + u64 (b * a))) }"
  let ?P = "\<lambda>i acc. acc = sum_list (map ?f [0..<i])"
  have "\<exists>s'. for_loop [0..<n] ?body 0 = Some s' \<and> ?P n s'"
  proof (rule for_loop_invariant [where P = ?P])
    show "?P 0 0" by simp
    show "0 \<le> n" by simp
  next
    fix i t
    assume i: "i < n" and t: "?P i t"
    have "sum_list (map ?f [0..<Suc i]) \<le> sum_list (map ?f [0..<n])"
      using i by (intro sum_list_prefix_le) simp
    then have small: "t + ?f i < 18446744073709551616"
      using assms(3) t by simp
    then have "?f i < 18446744073709551616"
      by simp
    then have "?body i t = Some (t + ?f i)"
      using i assms(1,2) small by (simp add: rd_def u64_small mult.commute)
    then show "\<exists>t'. ?body i t = Some t' \<and> ?P (Suc i) t'"
      using t by simp
  qed
  then show ?thesis
    by simp
qed

text \<open>
  On a valid pair, \<open>predict_values_dimension\<close> fails for want of memory or stores the
  smaller of the number of multiply-accumulate steps and the dense size of the result.
\<close>

lemma predict_values_dimension_result:
  assumes "valid_pair A B"
  shows "predict_values_dimension env A B =
           (if calloc env (noCols A) 8 \<and> calloc env (noRows B) 8
            then Some (None, min (mac_count A B) (noRows A * noCols B))
            else Some (Some HEAP_MEMORY_ERROR, 0))"
proof -
  have A: "valid_csr A" and B: "valid_csr B" and mult: "noCols A = noRows B"
    and dense: "noRows A * noCols B < 18446744073709551616"
    and macs: "mac_count A B < 18446744073709551616"
    using assms by (simp_all add: valid_pair_def can_multiply_def)
  let ?bs = "map (\<lambda>r. rowPointers B ! (r + 1) - rowPointers B ! r) [0..<noRows B]"
  let ?as = "map (count_list (colIndices A)) [0..<noCols A]"
  have eq: "map (\<lambda>c. ?as ! c * ?bs ! c) [0..<noCols A]
         = map (\<lambda>c. count_list (colIndices A) c * (rowPointers B ! (c + 1) - rowPointers B ! c))
             [0..<noCols A]"
    using mult by (intro map_cong) simp_all
  have sum: "for_loop [0..<noCols A]
           (\<lambda>index acc. do {
              b \<leftarrow> rd ?bs index;
              a \<leftarrow> rd ?as index;
              Some (u64 (acc + u64 (b * a))) })
           0
         = Some (mac_count A B)"
    using products_loop [of "noCols A" ?bs ?as] macs mult
    unfolding eq mac_count_def by simp
  show ?thesis
    unfolding predict_values_dimension_def Let_def row_lengths_loop [OF B]
      column_counts_loop [OF A] Option.bind.simps sum
    using dense by (simp add: u64_small min_def)
qed

section \<open>Counting the cells a kernel makes nonzero\<close>

lemma nonzeros_replicate_zero [simp]: "nonzeros (replicate n 0) = 0"
  by (simp add: nonzeros_def)

lemma nonzeros_le_length: "nonzeros vs \<le> length vs"
  by (simp add: nonzeros_def)

lemma nonzeros_update_le:
  assumes "i < length vs"
  shows "nonzeros (vs[i := v]) \<le> nonzeros vs + 1"
proof -
  have "vs = take i vs @ vs ! i # drop (Suc i) vs"
    using assms by (rule id_take_nth_drop)
  then have "nonzeros vs = nonzeros (take i vs) + nonzeros [vs ! i] + nonzeros (drop (Suc i) vs)"
    unfolding nonzeros_def by (metis append_Cons append_Nil filter_append length_append add.assoc)
  moreover have "vs[i := v] = take i vs @ v # drop (Suc i) vs"
    using assms by (rule upd_conv_take_nth_drop)
  then have "nonzeros (vs[i := v]) = nonzeros (take i vs) + nonzeros [v] + nonzeros (drop (Suc i) vs)"
    unfolding nonzeros_def by (metis append_Cons append_Nil filter_append length_append add.assoc)
  moreover have "nonzeros [v] \<le> 1"
    by (simp add: nonzeros_def)
  ultimately show ?thesis
    by simp
qed

lemma grows_refl: "grows 0 R R"
  by (simp add: grows_def)

lemma grows_trans: "grows a R R' \<Longrightarrow> grows b R' R'' \<Longrightarrow> grows (a + b) R R''"
  by (simp add: grows_def)

lemma grows_mono: "grows a R R' \<Longrightarrow> a \<le> b \<Longrightarrow> grows b R R'"
  by (simp add: grows_def)

lemma grows_values_unchanged: "values R' = values R \<Longrightarrow> grows 0 R R'"
  by (simp add: grows_def)

lemma for_loop_grows:
  assumes "for_loop xs body s = Some s'"
    and "\<And>i t t'. i \<in> set xs \<Longrightarrow> body i t = Some t' \<Longrightarrow> grows (cost i) t t'"
  shows "grows (sum_list (map cost xs)) s s'"
  using assms
proof (induction xs arbitrary: s)
  case Nil
  then show ?case by (simp add: grows_refl)
next
  case (Cons x xs)
  from Cons.prems(1) obtain t where t: "body x s = Some t" and rest: "for_loop xs body t = Some s'"
    by (auto split: option.splits)
  have "grows (cost x) s t"
    using t by (intro Cons.prems(2)) simp_all
  moreover have "grows (sum_list (map cost xs)) t s'"
    using rest Cons.prems(2) by (intro Cons.IH) simp_all
  ultimately show ?case
    using grows_trans by fastforce
qed

lemma sum_list_const_one: "sum_list (map (\<lambda>i. 1) [b..<e]) = e - (b::nat)"
  by (simp add: sum_list_triv)

text \<open>One multiply-accumulate makes at most one more cell nonzero.\<close>

lemma accumulate_grows:
  assumes "accumulate B rowA valueA indexB R = Some R'"
  shows "grows 1 R R'"
proof -
  from assms obtain k v cs where k: "k < length (values R)"
    and R': "R' = R\<lparr>values := (values R)[k := v], colIndices := cs\<rparr>"
    by (auto simp add: accumulate_def rd_def wr_def Let_def Option.bind_eq_Some_conv
          split: if_splits)
  show ?thesis
    unfolding R' grows_def using nonzeros_update_le [OF k] by simp
qed

lemma accumulate_loop_grows:
  assumes "for_loop [b..<e] (accumulate B rowA valueA) R = Some R'"
  shows "grows (e - b) R R'"
proof -
  have "grows (sum_list (map (\<lambda>i. 1) [b..<e])) R R'"
    by (rule for_loop_grows [OF assms]) (rule accumulate_grows)
  then show ?thesis
    by (simp only: sum_list_const_one)
qed

lemma gustavson_row_grows:
  assumes "gustavson_row A B rowA R = Some R'"
  shows "grows (row_macs A B rowA) R R'"
proof -
  let ?body = "\<lambda>indexA r. do {
            valueA \<leftarrow> rd (values A) indexA;
            colA \<leftarrow> rd (colIndices A) indexA;
            rowBBeg \<leftarrow> rd (rowPointers B) colA;
            rowBEnd \<leftarrow> rd (rowPointers B) (colA + 1);
            for_loop [rowBBeg..<rowBEnd] (accumulate B rowA valueA) r }"
  from assms obtain r rp
    where loop: "for_loop [rowPointers A ! rowA..<rowPointers A ! (rowA + 1)] ?body R = Some r"
      and R': "R' = r\<lparr>rowPointers := rp\<rparr>"
    by (auto simp add: gustavson_row_def rd_def Option.bind_eq_Some_conv split: if_splits)
  have step: "grows (row_length B (colIndices A ! indexA)) t t'" if "?body indexA t = Some t'"
    for indexA t t'
  proof -
    from that obtain valueA
      where "for_loop [rowPointers B ! (colIndices A ! indexA)..<
                       rowPointers B ! (colIndices A ! indexA + 1)]
               (accumulate B rowA valueA) t = Some t'"
      by (auto simp add: rd_def Option.bind_eq_Some_conv split: if_splits)
    then show ?thesis
      unfolding row_length_def by (rule accumulate_loop_grows)
  qed
  have "grows (row_macs A B rowA) R r"
    unfolding row_macs_def by (rule for_loop_grows [OF loop]) (rule step)
  then show ?thesis
    unfolding R' by (simp add: grows_def)
qed

lemma rows_grow:
  assumes "for_loop [lo..<hi] (gustavson_row A B) R = Some R'"
  shows "grows (sum_list (map (row_macs A B) [lo..<hi])) R R'"
  by (rule for_loop_grows [OF assms]) (rule gustavson_row_grows)

lemma multiply_V2_grows:
  assumes "multiply_V2 A B R = Some R'"
  shows "grows (sum_list (map (row_macs A B) [0..<noRows A])) R R'"
proof -
  from assms obtain rp
    where "for_loop [0..<noRows A] (gustavson_row A B) (R\<lparr>rowPointers := rp\<rparr>) = Some R'"
    by (auto simp add: multiply_V2_def Option.bind_eq_Some_conv)
  then have "grows (sum_list (map (row_macs A B) [0..<noRows A])) (R\<lparr>rowPointers := rp\<rparr>) R'"
    by (rule rows_grow)
  then show ?thesis
    by (simp add: grows_def)
qed

lemma multiply_main_implementation_grows:
  assumes "multiply_main_implementation A B arg R = Some R'"
  shows "grows (sum_list (map (row_macs A B) [start_row arg..<end_row arg])) R R'"
proof -
  from assms obtain rp
    where "for_loop [start_row arg..<end_row arg] (gustavson_row A B) (R\<lparr>rowPointers := rp\<rparr>)
             = Some R'"
    by (auto simp add: multiply_main_implementation_def Option.bind_eq_Some_conv)
  then have "grows (sum_list (map (row_macs A B) [start_row arg..<end_row arg]))
               (R\<lparr>rowPointers := rp\<rparr>) R'"
    by (rule rows_grow)
  then show ?thesis
    by (simp add: grows_def)
qed

section \<open>The number of multiply-accumulate steps\<close>

lemma sum_list_by_count:
  fixes f :: "nat \<Rightarrow> nat"
  assumes "\<forall>x \<in> set xs. x < m"
  shows "sum_list (map f xs) = (\<Sum>c\<leftarrow>[0..<m]. count_list xs c * f c)"
  using assms
proof (induction xs)
  case Nil
  show ?case by simp
next
  case (Cons x xs)
  have x: "x < m"
    using Cons.prems by simp
  have "(\<Sum>c\<leftarrow>[0..<m]. (if x = c then f c else 0)) = (\<Sum>c\<in>{0..<m}. if x = c then f c else 0)"
    by (simp add: interv_sum_list_conv_sum_set_nat)
  also have "\<dots> = f x"
    using x by simp
  finally have delta: "(\<Sum>c\<leftarrow>[0..<m]. (if x = c then f c else 0)) = f x" .
  have "(\<Sum>c\<leftarrow>[0..<m]. count_list (x # xs) c * f c)
          = (\<Sum>c\<leftarrow>[0..<m]. count_list xs c * f c + (if x = c then f c else 0))"
    by (intro arg_cong [where f = sum_list] map_cong) simp_all
  also have "\<dots> = (\<Sum>c\<leftarrow>[0..<m]. count_list xs c * f c) + (\<Sum>c\<leftarrow>[0..<m]. (if x = c then f c else 0))"
    by (rule sum_list_addf)
  finally show ?case
    using Cons delta by simp
qed

lemma row_macs_prefix:
  assumes "valid_csr A" and "k \<le> noRows A"
  shows "sum_list (map (row_macs A B) [0..<k])
           = (\<Sum>indexA\<leftarrow>[0..<rowPointers A ! k]. row_length B (colIndices A ! indexA))"
  using assms(2)
proof (induction k)
  case 0
  show ?case
    using valid_csr_facts(4) [OF assms(1)] by simp
next
  case (Suc k)
  then have k: "k < noRows A" by simp
  have le: "rowPointers A ! k \<le> rowPointers A ! (k + 1)"
    using valid_row_bounds(1) [OF assms(1) k] .
  then have "[0..<rowPointers A ! Suc k]
               = [0..<rowPointers A ! k] @ [rowPointers A ! k..<rowPointers A ! Suc k]"
    by (metis Suc_eq_plus1 le0 le_add_diff_inverse upt_add_eq_append)
  then show ?case
    using Suc k by (simp add: row_macs_def)
qed

lemma total_macs:
  assumes "valid_csr A"
  shows "sum_list (map (row_macs A B) [0..<noRows A]) = mac_count A B"
proof -
  let ?cs = "colIndices A"
  have len: "length ?cs = valuesSize A" and last: "rowPointers A ! noRows A = valuesSize A"
    using valid_csr_facts(2,6) [OF assms] by simp_all
  have "sum_list (map (row_macs A B) [0..<noRows A])
          = (\<Sum>indexA\<leftarrow>[0..<length ?cs]. row_length B (?cs ! indexA))"
    using row_macs_prefix [OF assms, of "noRows A" B] len last by simp
  also have "\<dots> = sum_list (map (row_length B) (map (\<lambda>i. ?cs ! i) [0..<length ?cs]))"
    by (simp add: comp_def)
  also have "\<dots> = sum_list (map (row_length B) ?cs)"
    by (simp only: map_nth)
  also have "\<dots> = (\<Sum>c\<leftarrow>[0..<noCols A]. count_list ?cs c * row_length B c)"
    using valid_csr_facts(7) [OF assms] len
    by (intro sum_list_by_count) (metis in_set_conv_nth)
  finally show ?thesis
    by (simp add: mac_count_def row_length_def)
qed

section \<open>The compactor keeps no more values than there are nonzero cells\<close>

lemma for_loop_upt_preserves:
  assumes "for_loop [lo..<hi] body s = Some s'" and "P lo s"
    and "\<And>i t t'. lo \<le> i \<Longrightarrow> i < hi \<Longrightarrow> P i t \<Longrightarrow> body i t = Some t' \<Longrightarrow> P (Suc i) t'"
    and "lo \<le> hi"
  shows "P hi s'"
  using assms(4,1,3)
proof (induction hi arbitrary: s' rule: dec_induct)
  case base
  then show ?case using assms(2) by simp
next
  case (step n)
  from step.prems(1) step.hyps(1)
  obtain t where t: "for_loop [lo..<n] body s = Some t" and last: "body n t = Some s'"
    by (auto simp add: for_loop_append split: option.splits)
  have "P n t"
    using t step.prems(2) step.hyps by (intro step.IH) simp_all
  then show ?case
    using last step.hyps by (intro step.prems(2)) simp_all
qed

lemma nonzeros_drop_le: "nonzeros (drop k vs) \<le> nonzeros vs"
proof -
  have "nonzeros vs = nonzeros (take k vs) + nonzeros (drop k vs)"
    unfolding nonzeros_def by (metis append_take_drop_id filter_append length_append)
  then show ?thesis
    by simp
qed

lemma nonzeros_drop_Suc:
  "k < length vs \<Longrightarrow>
     nonzeros (drop k vs) = (if vs ! k \<noteq> 0 then 1 else 0) + nonzeros (drop (Suc k) vs)"
  by (simp add: nonzeros_def flip: Cons_nth_drop_Suc)

lemma nonzeros_drop_mono: "a \<le> b \<Longrightarrow> nonzeros (drop b vs) \<le> nonzeros (drop a vs)"
  using nonzeros_drop_le [of "b - a" "drop a vs"] by simp

lemma clean_up_entry_bound:
  assumes "clean_up_entry k (M, n, r) = Some (M', n', r')"
    and "n \<le> k" and "n + nonzeros (drop k (values M)) \<le> N"
  shows "n' \<le> Suc k \<and> n' + nonzeros (drop (Suc k) (values M')) \<le> N"
proof -
  have k: "k < length (values M)"
    using assms(1) by (auto simp add: clean_up_entry_def rd_def split: if_splits)
  show ?thesis
  proof (cases "values M ! k = 0")
    case True
    then have "M' = M" "n' = n"
      using assms(1) k by (simp_all add: clean_up_entry_def rd_def)
    then show ?thesis
      using assms(2,3) True k by (simp add: nonzeros_drop_Suc)
  next
    case False
    then have n': "n' = n + 1" and vs: "values M' = (values M)[n := values M ! k]"
      using assms(1) k
      by (auto simp add: clean_up_entry_def rd_def wr_def Option.bind_eq_Some_conv
            split: if_splits)
    have "drop (Suc k) (values M') = drop (Suc k) (values M)"
      unfolding vs using assms(2) by (intro drop_update_cancel) simp
    then show ?thesis
      using assms(2,3) False k n' by (simp add: nonzeros_drop_Suc)
  qed
qed

lemma clean_up_entries_bound:
  assumes "for_loop [b..<e] clean_up_entry (M, n, r) = Some (M', n', r')"
    and "b \<le> e" and "n \<le> b" and "n + nonzeros (drop b (values M)) \<le> N"
  shows "n' \<le> e \<and> n' + nonzeros (drop e (values M')) \<le> N"
proof -
  let ?P = "\<lambda>k (m, c, x :: nat). c \<le> k \<and> c + nonzeros (drop k (values m)) \<le> N"
  have "?P e (M', n', r')"
  proof (rule for_loop_upt_preserves [OF assms(1), where P = ?P])
    show "?P b (M, n, r)"
      using assms(3,4) by simp
    show "b \<le> e" by (rule assms(2))
  next
    fix i t t'
    assume "?P i t" and step: "clean_up_entry i t = Some t'"
    moreover obtain m c x where t: "t = (m, c, x)" by (cases t)
    moreover obtain m' c' x' where t': "t' = (m', c', x')" by (cases t')
    ultimately show "?P (Suc i) t'"
      using clean_up_entry_bound [of i m c x m' c' x' N] by simp
  qed
  then show ?thesis
    by simp
qed

lemma clean_up_row_bound:
  assumes "clean_up_row row (M, n, r, b) = Some (M', n', r', b')"
    and "n \<le> b" and "n + nonzeros (drop b (values M)) \<le> N"
  shows "n' \<le> b' \<and> n' + nonzeros (drop b' (values M')) \<le> N"
proof -
  from assms(1) obtain row_end m rp
    where loop: "for_loop [b..<row_end] clean_up_entry (M, n, r) = Some (m, n', r')"
      and M': "M' = m\<lparr>rowPointers := rp\<rparr>"
      and b': "b' = (if b < row_end then row_end else b)"
    by (auto simp add: clean_up_row_def Option.bind_eq_Some_conv)
  show ?thesis
  proof (cases "b < row_end")
    case True
    then show ?thesis
      using clean_up_entries_bound [OF loop _ assms(2,3)] M' b' by simp
  next
    case False
    then have "m = M" "n' = n"
      using loop by simp_all
    then show ?thesis
      using assms(2,3) M' b' False by simp
  qed
qed

lemma clean_up_matrix_arrays_bound:
  assumes "clean_up_matrix_arrays M = Some (M', n)"
  shows "n \<le> nonzeros (values M)"
proof -
  let ?N = "nonzeros (values M)"
  let ?P = "\<lambda>(m, c, x :: nat, b). c \<le> b \<and> c + nonzeros (drop b (values m)) \<le> ?N"
  from assms obtain r b
    where loop: "for_loop [1..<rowPointersSize M] clean_up_row (M, 0, 0, rowPointers M ! 0)
                   = Some (M', n, r, b)"
    by (auto simp add: clean_up_matrix_arrays_def rd_def Option.bind_eq_Some_conv
          split: if_splits)
  have "?P (M', n, r, b)"
  proof (rule for_loop_preserves [OF loop, where P = ?P])
    show "?P (M, 0, 0, rowPointers M ! 0)"
      by (simp add: nonzeros_drop_le)
  next
    fix i t t'
    assume "?P t" and step: "clean_up_row i t = Some t'"
    moreover obtain m c x y where t: "t = (m, c, x, y)" by (cases t)
    moreover obtain m' c' x' y' where t': "t' = (m', c', x', y')" by (cases t')
    ultimately show "?P t'"
      using clean_up_row_bound [of i m c x y m' c' x' y' ?N] by simp
  qed
  then show ?thesis
    by simp
qed

lemma clean_up_csr_bound:
  assumes "clean_up_csr env M = Some (None, M')"
  shows "valuesSize M' \<le> nonzeros (values M)"
proof -
  from assms obtain m n where arrays: "clean_up_matrix_arrays M = Some (m, n)"
    and size: "valuesSize M' = n"
    by (auto simp add: clean_up_csr_def Let_def Option.bind_eq_Some_conv split: if_splits)
  show ?thesis
    using clean_up_matrix_arrays_bound [OF arrays] size by simp
qed

text \<open>
  A kernel that starts from a zeroed values array of \<open>n\<close> cells and makes at most \<open>k\<close> of
  them nonzero leaves, after compaction, at most \<open>min k n\<close> values.
\<close>

lemma compacted_size_bound:
  assumes "values R0 = replicate n 0" and "grows k R0 R1"
    and "clean_up_csr env R1 = Some (None, R')"
  shows "valuesSize R' \<le> min k n"
proof -
  have "nonzeros (values R1) \<le> k" and "length (values R1) = n"
    using assms(1,2) by (simp_all add: grows_def)
  moreover have "nonzeros (values R1) \<le> length (values R1)"
    by (rule nonzeros_le_length)
  ultimately show ?thesis
    using clean_up_csr_bound [OF assms(3)] by simp
qed

section \<open>The kernels that work in a dense buffer\<close>

text \<open>The buffer \<open>init_empty_csr_matrix\<close> hands to a kernel is all zeros.\<close>

lemma init_empty_csr_matrix_buffer:
  assumes "init_empty_csr_matrix env A B h flag = Some (code, h')"
    and "code \<noteq> Some HEAP_MEMORY_ERROR" and "deref h' = Some R0"
  shows "\<exists>n. values R0 = replicate n 0 \<and>
           (if flag then predict_values_dimension env A B = Some (None, n)
            else n = u64 (noRows A * noCols B))"
proof -
  from assms(1,2) obtain n
    where n: "(if flag then predict_values_dimension env A B
               else Some (None, u64 (noRows A * noCols B))) = Some (None, n)"
      and h': "h' = \<lparr>h_noRows = noRows A, h_noCols = noCols B,
                  h_values = Some (replicate n 0), h_valuesSize = n,
                  h_colIndices = Some (replicate n 0),
                  h_rowPointers = Some (map (fresh_u64 env) [0..<noRows A + 1]),
                  h_rowPointersSize = noRows A + 1\<rparr>"
    by (auto simp add: init_empty_csr_matrix_def Let_def Option.bind_eq_Some_conv
          split: if_splits option.splits prod.splits)
  have "values R0 = replicate n 0"
    using assms(3) unfolding h' by (auto simp add: deref_def)
  then show ?thesis
    using n by (auto split: if_splits)
qed

lemma clean_up_csr_code:
  assumes "clean_up_csr env M = Some (code, M')" and "code \<noteq> Some HEAP_MEMORY_ERROR"
  shows "code = None"
  using assms
  by (auto simp add: clean_up_csr_def Let_def Option.bind_eq_Some_conv split: if_splits)

lemma matr_mult_csr_V2_size:
  assumes "matr_mult_csr_V2 env A B h = Some (None, h')" and "valid_pair A B"
  shows "h_valuesSize h' \<le> min (mac_count A B) (noRows A * noCols B)"
proof -
  have A: "valid_csr A" and dense: "noRows A * noCols B < 18446744073709551616"
    using assms(2) by (simp_all add: valid_pair_def)
  from assms(1) obtain code h0 R0 R1 code' R'
    where init: "init_empty_csr_matrix env A B h False = Some (code, h0)"
      and code: "code \<noteq> Some HEAP_MEMORY_ERROR" and R0: "deref h0 = Some R0"
      and kernel: "multiply_V2 A B R0 = Some R1"
      and clean': "clean_up_csr env R1 = Some (code', R')"
      and code': "code' \<noteq> Some HEAP_MEMORY_ERROR" and h': "h' = handle_of R'"
    by (auto simp add: matr_mult_csr_V2_def Option.bind_eq_Some_conv
          split: if_splits option.splits)
  have clean: "clean_up_csr env R1 = Some (None, R')"
    using clean' clean_up_csr_code [OF clean' code'] by simp
  have buffer: "values R0 = replicate (noRows A * noCols B) 0"
    using init_empty_csr_matrix_buffer [OF init code R0] dense by (simp add: u64_small)
  have "grows (mac_count A B) R0 R1"
    using multiply_V2_grows [OF kernel] total_macs [OF A] by simp
  from compacted_size_bound [OF buffer this clean] show ?thesis
    unfolding h' by (simp add: handle_of_def)
qed

subsection \<open>The SIMD kernels\<close>

lemma scatter_products_grows:
  assumes "for_loop xs
             (\<lambda>i r. do {
                columnB \<leftarrow> rd (colIndices B) (indexB + i);
                v \<leftarrow> rd values_to_add i;
                old \<leftarrow> rd (values r) (u64 (rvi + columnB));
                vs \<leftarrow> wr (values r) (u64 (rvi + columnB)) (old + v);
                cs \<leftarrow> wr (colIndices r) (u64 (rci + columnB)) columnB;
                Some (r\<lparr>values := vs, colIndices := cs\<rparr>) })
             R = Some R'"
  shows "grows (length xs) R R'"
proof -
  have "grows (sum_list (map (\<lambda>i. 1) xs)) R R'"
  proof (rule for_loop_grows [OF assms])
    fix i and t t' :: "'a Matrix"
    assume "do {
                columnB \<leftarrow> rd (colIndices B) (indexB + i);
                v \<leftarrow> rd values_to_add i;
                old \<leftarrow> rd (values t) (u64 (rvi + columnB));
                vs \<leftarrow> wr (values t) (u64 (rvi + columnB)) (old + v);
                cs \<leftarrow> wr (colIndices t) (u64 (rci + columnB)) columnB;
                Some (t\<lparr>values := vs, colIndices := cs\<rparr>) } = Some t'"
    then obtain k v cs where k: "k < length (values t)"
      and t': "t' = t\<lparr>values := (values t)[k := v], colIndices := cs\<rparr>"
      by (auto simp add: rd_def wr_def Option.bind_eq_Some_conv split: if_splits)
    show "grows 1 t t'"
      unfolding t' grows_def using nonzeros_update_le [OF k] by simp
  qed
  then show ?thesis
    by (simp add: sum_list_triv)
qed

lemma simd_batches_grows:
  assumes "simd_batches lanes B rvi rci valueA n indexB R = Some (indexB', R')"
    and "lanes \<le> n"
  shows "indexB \<le> indexB' \<and> indexB' \<le> indexB + n \<and> grows (indexB' - indexB) R R'"
  using assms
proof (induction n arbitrary: indexB R rule: less_induct)
  case (less n)
  note unfold = simd_batches.simps [of lanes B rvi rci valueA n indexB R]
  from less.prems(1) have lanes: "lanes \<noteq> 0"
    unfolding unfold by (auto split: if_splits)
  from less.prems(1) obtain values_to_add r
    where pass: "for_loop [0..<lanes]
             (\<lambda>i r. do {
                columnB \<leftarrow> rd (colIndices B) (indexB + i);
                v \<leftarrow> rd values_to_add i;
                old \<leftarrow> rd (values r) (u64 (rvi + columnB));
                vs \<leftarrow> wr (values r) (u64 (rvi + columnB)) (old + v);
                cs \<leftarrow> wr (colIndices r) (u64 (rci + columnB)) columnB;
                Some (r\<lparr>values := vs, colIndices := cs\<rparr>) })
             R = Some r"
      and rest: "(if n - lanes \<ge> lanes
                  then simd_batches lanes B rvi rci valueA (n - lanes) (indexB + lanes) r
                  else Some (indexB + lanes, r)) = Some (indexB', R')"
    unfolding unfold using lanes
    by (auto simp add: Option.bind_eq_Some_conv simp del: simd_batches.simps)
  have first: "grows lanes R r"
    using scatter_products_grows [OF pass] by simp
  show ?case
  proof (cases "n - lanes \<ge> lanes")
    case True
    then have call: "simd_batches lanes B rvi rci valueA (n - lanes) (indexB + lanes) r
                       = Some (indexB', R')"
      using rest by simp
    have "n - lanes < n"
      using lanes less.prems(2) by simp
    from less.IH [OF this call True]
    have "indexB + lanes \<le> indexB'" and "indexB' \<le> indexB + lanes + (n - lanes)"
      and "grows (indexB' - (indexB + lanes)) r R'"
      by simp_all
    moreover from this(3) first have "grows (lanes + (indexB' - (indexB + lanes))) R R'"
      by (rule grows_trans [rotated])
    ultimately show ?thesis
      using less.prems(2) by simp
  next
    case False
    then have "indexB' = indexB + lanes" "R' = r"
      using rest by simp_all
    then show ?thesis
      using first less.prems(2) by simp
  qed
qed

lemma simd_row_grows:
  assumes "simd_row lanes A B rowA R = Some R'"
    and "valid_csr A" and "valid_csr B" and "noCols A = noRows B" and "rowA < noRows A"
  shows "grows (row_macs A B rowA) R R'"
proof -
  let ?tail = "\<lambda>rvi rci valueA indexB r. do {
                 valueB \<leftarrow> rd (values B) indexB;
                 let valueC = valueA * valueB;
                 columnB \<leftarrow> rd (colIndices B) indexB;
                 old \<leftarrow> rd (values r) (u64 (rvi + columnB));
                 vs \<leftarrow> wr (values r) (u64 (rvi + columnB)) (old + valueC);
                 cs \<leftarrow> wr (colIndices r) (u64 (rci + columnB)) columnB;
                 Some (r\<lparr>values := vs, colIndices := cs\<rparr>) }"
  let ?body = "\<lambda>indexA r. do {
            let resultValueIndex = u64 (rowA * noCols r);
            let resultColIndex = u64 (rowA * noCols B);
            colA \<leftarrow> rd (colIndices A) indexA;
            rowBBeg \<leftarrow> rd (rowPointers B) colA;
            rowBEnd \<leftarrow> rd (rowPointers B) (colA + 1);
            let valuesToMultiply = u64_sub rowBEnd rowBBeg;
            (indexB, r') \<leftarrow>
              (if valuesToMultiply \<ge> lanes then do {
                 valueA \<leftarrow> rd (values A) indexA;
                 simd_batches lanes B resultValueIndex resultColIndex valueA
                   valuesToMultiply rowBBeg r }
               else Some (rowBBeg, r));
            valueA \<leftarrow> rd (values A) indexA;
            for_loop [indexB..<rowBEnd] (?tail resultValueIndex resultColIndex valueA) r' }"
  from assms(1) obtain r rp
    where loop: "for_loop [rowPointers A ! rowA..<rowPointers A ! (rowA + 1)] ?body R = Some r"
      and R': "R' = r\<lparr>rowPointers := rp\<rparr>"
    by (auto simp add: simd_row_def rd_def Option.bind_eq_Some_conv split: if_splits
          simp del: simd_batches.simps)
  have tail: "grows (e - b) t t'"
    if "for_loop [b..<e] (?tail rvi rci valueA) t = Some t'" for rvi rci valueA b e t t'
  proof -
    have "grows (sum_list (map (\<lambda>i. 1) [b..<e])) t t'"
    proof (rule for_loop_grows [OF that])
      fix i and u u' :: "'a Matrix"
      assume "?tail rvi rci valueA i u = Some u'"
      then obtain k v cs where k: "k < length (values u)"
        and u': "u' = u\<lparr>values := (values u)[k := v], colIndices := cs\<rparr>"
        by (auto simp add: rd_def wr_def Let_def Option.bind_eq_Some_conv split: if_splits)
      show "grows 1 u u'"
        unfolding u' grows_def using nonzeros_update_le [OF k] by simp
    qed
    then show ?thesis
      by (simp only: sum_list_const_one)
  qed
  have step: "grows (row_length B (colIndices A ! indexA)) t t'"
    if index: "indexA \<in> set [rowPointers A ! rowA..<rowPointers A ! (rowA + 1)]"
      and body: "?body indexA t = Some t'" for indexA t t'
  proof -
    let ?c = "colIndices A ! indexA"
    let ?b = "rowPointers B ! ?c"
    let ?e = "rowPointers B ! (?c + 1)"
    have "indexA < valuesSize A"
      using index valid_row_bounds(2) [OF assms(2,5)] by simp
    then have c: "?c < noRows B"
      using valid_csr_facts(7) [OF assms(2)] assms(4) by simp
    have be: "?b \<le> ?e" and e: "?e \<le> valuesSize B"
      using valid_row_bounds [OF assms(3) c] by simp_all
    have sub: "u64_sub ?e ?b = ?e - ?b"
      using be e valid_csr_facts(9) [OF assms(3)] by (intro u64_sub_small) simp_all
    from body have "\<exists>colA. rd (colIndices A) indexA = Some colA \<and>
        (\<exists>rowBBeg. rd (rowPointers B) colA = Some rowBBeg \<and>
        (\<exists>rowBEnd. rd (rowPointers B) (colA + 1) = Some rowBEnd \<and>
        (\<exists>indexB r'.
           (if u64_sub rowBEnd rowBBeg \<ge> lanes then do {
              valueA \<leftarrow> rd (values A) indexA;
              simd_batches lanes B (u64 (rowA * noCols t)) (u64 (rowA * noCols B)) valueA
                (u64_sub rowBEnd rowBBeg) rowBBeg t }
            else Some (rowBBeg, t)) = Some (indexB, r') \<and>
        (\<exists>valueA. rd (values A) indexA = Some valueA \<and>
           for_loop [indexB..<rowBEnd]
             (?tail (u64 (rowA * noCols t)) (u64 (rowA * noCols B)) valueA) r' = Some t'))))"
      unfolding Let_def Option.bind_eq_Some_conv split_paired_Ex prod.case .
    then obtain colA rowBBeg rowBEnd indexB r' valueA
      where colA: "rd (colIndices A) indexA = Some colA"
        and rowBBeg: "rd (rowPointers B) colA = Some rowBBeg"
        and rowBEnd: "rd (rowPointers B) (colA + 1) = Some rowBEnd"
        and batches': "(if u64_sub rowBEnd rowBBeg \<ge> lanes then do {
              valueA \<leftarrow> rd (values A) indexA;
              simd_batches lanes B (u64 (rowA * noCols t)) (u64 (rowA * noCols B)) valueA
                (u64_sub rowBEnd rowBBeg) rowBBeg t }
            else Some (rowBBeg, t)) = Some (indexB, r')"
        and rest': "for_loop [indexB..<rowBEnd]
             (?tail (u64 (rowA * noCols t)) (u64 (rowA * noCols B)) valueA) r' = Some t'"
      by blast
    have "colA = ?c"
      using colA by (simp add: rd_def split: if_splits)
    then have "rowBBeg = ?b" and "rowBEnd = ?e"
      using rowBBeg rowBEnd by (simp_all add: rd_def split: if_splits)
    note batches = batches' [unfolded \<open>rowBBeg = ?b\<close> \<open>rowBEnd = ?e\<close> sub]
    note rest = rest' [unfolded \<open>rowBEnd = ?e\<close>]
    have "?b \<le> indexB \<and> indexB \<le> ?e \<and> grows (indexB - ?b) t r'"
    proof (cases "lanes \<le> ?e - ?b")
      case True
      with batches obtain valueA'
        where "simd_batches lanes B (u64 (rowA * noCols t)) (u64 (rowA * noCols B)) valueA'
                 (?e - ?b) ?b t = Some (indexB, r')"
        by (auto simp add: Option.bind_eq_Some_conv simp del: simd_batches.simps)
      from simd_batches_grows [OF this True] show ?thesis
        using be by simp
    next
      case False
      with batches show ?thesis
        using be by (simp add: grows_refl)
    qed
    moreover have "grows (?e - indexB) r' t'"
      by (rule tail [OF rest])
    ultimately have "grows ((indexB - ?b) + (?e - indexB)) t t'"
      using grows_trans by blast
    moreover have "(indexB - ?b) + (?e - indexB) = ?e - ?b"
      using \<open>?b \<le> indexB \<and> indexB \<le> ?e \<and> grows (indexB - ?b) t r'\<close> by simp
    ultimately show ?thesis
      unfolding row_length_def by simp
  qed
  have "grows (row_macs A B rowA) R r"
    unfolding row_macs_def by (rule for_loop_grows [OF loop]) (rule step)
  then show ?thesis
    unfolding R' by (simp add: grows_def)
qed

lemma multiply_simd_grows:
  assumes "multiply_simd lanes env A B R = Some (None, R')"
    and "valid_csr A" and "valid_csr B" and "noCols A = noRows B"
  shows "grows (mac_count A B) R R'"
proof -
  from assms(1) obtain rp
    where loop: "for_loop [0..<noRows A] (simd_row lanes A B) (R\<lparr>rowPointers := rp\<rparr>) = Some R'"
    by (auto simp add: multiply_simd_def Option.bind_eq_Some_conv split: if_splits)
  have "grows (sum_list (map (row_macs A B) [0..<noRows A])) (R\<lparr>rowPointers := rp\<rparr>) R'"
  proof (rule for_loop_grows [OF loop])
    fix i t t'
    assume "i \<in> set [0..<noRows A]" and "simd_row lanes A B i t = Some t'"
    then show "grows (row_macs A B i) t t'"
      using simd_row_grows [OF _ assms(2-4)] by simp
  qed
  then show ?thesis
    using total_macs [OF assms(2)] by (simp add: grows_def)
qed

lemma matr_mult_simd_size:
  assumes "matr_mult_simd lanes env A B h = Some (None, h')" and "valid_pair A B"
  shows "h_valuesSize h' \<le> min (mac_count A B) (noRows A * noCols B)"
proof -
  have A: "valid_csr A" and B: "valid_csr B" and mult: "noCols A = noRows B"
    and dense: "noRows A * noCols B < 18446744073709551616"
    using assms(2) by (simp_all add: valid_pair_def can_multiply_def)
  from assms(1) obtain code h0 R0 code1 R1 code' R'
    where init: "init_empty_csr_matrix env A B h False = Some (code, h0)"
      and code: "code \<noteq> Some HEAP_MEMORY_ERROR" and R0: "deref h0 = Some R0"
      and kernel': "multiply_simd lanes env A B R0 = Some (code1, R1)"
      and code1: "code1 \<noteq> Some HEAP_MEMORY_ERROR"
      and clean': "clean_up_csr env R1 = Some (code', R')"
      and code': "code' \<noteq> Some HEAP_MEMORY_ERROR" and h': "h' = handle_of R'"
    by (auto simp add: matr_mult_simd_def Option.bind_eq_Some_conv
          split: if_splits option.splits)
  have clean: "clean_up_csr env R1 = Some (None, R')"
    using clean' clean_up_csr_code [OF clean' code'] by simp
  have "code1 = None"
    using kernel' code1
    by (auto simp add: multiply_simd_def Option.bind_eq_Some_conv split: if_splits)
  then have kernel: "multiply_simd lanes env A B R0 = Some (None, R1)"
    using kernel' by simp
  have buffer: "values R0 = replicate (noRows A * noCols B) 0"
    using init_empty_csr_matrix_buffer [OF init code R0] dense by (simp add: u64_small)
  from compacted_size_bound [OF buffer multiply_simd_grows [OF kernel A B mult] clean]
  show ?thesis
    unfolding h' by (simp add: handle_of_def)
qed

subsection \<open>The size-predicted kernel\<close>

text \<open>\<open>multiply_V5\<close> works within the array it is given: the length of the values never changes.\<close>

lemma scan_slots_length:
  "scan_slots xs c v (r, e) = Some (r', e') \<Longrightarrow> length (values r') = length (values r)"
  by (induction xs)
    (auto simp add: rd_def wr_def Option.bind_eq_Some_conv split: if_splits)

lemma predicted_row_length:
  assumes "predicted_row A B rowA (R, b, e) = Some (R', b', e')"
  shows "length (values R') = length (values R)"
proof -
  let ?inner = "\<lambda>valueA indexB (r, e). do {
                 valueB \<leftarrow> rd (values B) indexB;
                 let valueC = valueA * valueB;
                 columnB \<leftarrow> rd (colIndices B) indexB;
                 scan_slots [b..<valuesSize r] columnB valueC (r, e) }"
  let ?body = "\<lambda>indexA st. do {
            valueA \<leftarrow> rd (values A) indexA;
            colA \<leftarrow> rd (colIndices A) indexA;
            rowBBeg \<leftarrow> rd (rowPointers B) colA;
            rowBEnd \<leftarrow> rd (rowPointers B) (colA + 1);
            for_loop [rowBBeg..<rowBEnd] (?inner valueA) st }"
  let ?P = "\<lambda>(r :: 'a Matrix, e :: nat). length (values r) = length (values R)"
  from assms obtain r e1 rp
    where loop: "for_loop [rowPointers A ! rowA..<rowPointers A ! (rowA + 1)] ?body (R, e)
                   = Some (r, e1)"
      and R': "R' = r\<lparr>rowPointers := rp\<rparr>"
    by (auto simp add: predicted_row_def rd_def Option.bind_eq_Some_conv split: if_splits)
  have inner: "?P u'" if "?P u" and "?inner valueA i u = Some u'" for valueA i u u'
    using that
    by (cases u; cases u')
      (auto simp add: Let_def Option.bind_eq_Some_conv dest: scan_slots_length)
  have body: "?P t'" if "?P t" and "?body i t = Some t'" for i t t'
  proof -
    from that(2) obtain valueA lo hi
      where "for_loop [lo..<hi] (?inner valueA) t = Some t'"
      by (auto simp add: Option.bind_eq_Some_conv)
    then show ?thesis
      using that(1) by (rule for_loop_preserves) (rule inner)
  qed
  have "?P (r, e1)"
    using loop by (rule for_loop_preserves) (simp, rule body)
  then show ?thesis
    unfolding R' by simp
qed

lemma multiply_V5_length:
  assumes "multiply_V5 A B R = Some R'"
  shows "length (values R') = length (values R)"
proof -
  let ?P = "\<lambda>(r :: 'a Matrix, b :: nat, e :: nat). length (values r) = length (values R)"
  from assms obtain rp b e
    where loop: "for_loop [0..<noRows A] (predicted_row A B) (R\<lparr>rowPointers := rp\<rparr>, 0, 0)
                   = Some (R', b, e)"
    by (auto simp add: multiply_V5_def Option.bind_eq_Some_conv)
  have step: "?P t'" if "?P t" and "predicted_row A B i t = Some t'" for i t t'
    using that by (cases t; cases t') (auto dest: predicted_row_length)
  have "?P (R', b, e)"
    using loop by (rule for_loop_preserves) (simp, rule step)
  then show ?thesis
    by simp
qed

lemma matr_mult_csr_V5_size:
  assumes "matr_mult_csr_V5 env A B h = Some (None, h')" and "valid_pair A B"
  shows "h_valuesSize h' \<le> min (mac_count A B) (noRows A * noCols B)"
proof -
  from assms(1) obtain code h0 R0 R1 code' R'
    where init: "init_empty_csr_matrix env A B h True = Some (code, h0)"
      and code: "code \<noteq> Some HEAP_MEMORY_ERROR" and R0: "deref h0 = Some R0"
      and kernel: "multiply_V5 A B R0 = Some R1"
      and clean': "clean_up_csr env R1 = Some (code', R')"
      and code': "code' \<noteq> Some HEAP_MEMORY_ERROR" and h': "h' = handle_of R'"
    by (auto simp add: matr_mult_csr_V5_def Option.bind_eq_Some_conv
          split: if_splits option.splits)
  have clean: "clean_up_csr env R1 = Some (None, R')"
    using clean' clean_up_csr_code [OF clean' code'] by simp
  from init_empty_csr_matrix_buffer [OF init code R0] obtain n
    where buffer: "values R0 = replicate n 0"
      and n: "predict_values_dimension env A B = Some (None, n)"
    by auto
  have "n = min (mac_count A B) (noRows A * noCols B)"
    using predict_values_dimension_result [OF assms(2), of env] n by (simp split: if_splits)
  moreover have "length (values R1) = n"
    using multiply_V5_length [OF kernel] buffer by simp
  moreover have "valuesSize R' \<le> nonzeros (values R1)"
    by (rule clean_up_csr_bound [OF clean])
  moreover have "nonzeros (values R1) \<le> length (values R1)"
    by (rule nonzeros_le_length)
  ultimately show ?thesis
    unfolding h' by (simp add: handle_of_def)
qed

subsection \<open>The multithreaded kernel\<close>

lemma run_workers_grows:
  assumes "run_workers env A B i args R = Some (None, R')"
  shows "grows (sum_list (map (\<lambda>arg. sum_list (map (row_macs A B) [start_row arg..<end_row arg]))
                   args)) R R'"
  using assms
proof (induction args arbitrary: i R)
  case Nil
  then show ?case by (simp add: grows_refl)
next
  case (Cons arg args)
  from Cons.prems obtain r
    where first: "multiply_main_implementation A B arg R = Some r"
      and rest: "run_workers env A B (i + 1) args r = Some (None, R')"
    by (auto simp add: Option.bind_eq_Some_conv split: if_splits)
  from multiply_main_implementation_grows [OF first] Cons.IH [OF rest]
  show ?case
    by (simp add: grows_trans)
qed

lemma run_workers_code:
  "run_workers env A B i args R = Some (code, R') \<Longrightarrow> code = None \<or> code = Some THREAD_START_ERROR"
  by (induction args arbitrary: i R)
    (auto simp add: Option.bind_eq_Some_conv split: if_splits)

text \<open>Sums over ranges that follow one another add up to the sum over the whole range.\<close>

lemma sum_list_ranges:
  fixes f :: "nat \<Rightarrow> nat" and b :: "nat \<Rightarrow> nat"
  assumes "\<And>i. i < k \<Longrightarrow> b i \<le> b (Suc i)"
  shows "sum_list (map (\<lambda>i. sum_list (map f [b i..<b (Suc i)])) [0..<k])
           = sum_list (map f [b 0..<b k])"
  using assms
proof (induction k)
  case 0
  then show ?case by simp
next
  case (Suc k)
  have mono: "b 0 \<le> b k"
    using Suc.prems by (induction k) (simp_all add: le_trans less_Suc_eq)
  have "[b 0..<b (Suc k)] = [b 0..<b k] @ [b k..<b (Suc k)]"
    using mono Suc.prems [of k] by (metis le_Suc_ex lessI upt_add_eq_append)
  then show ?case
    using Suc by simp
qed

lemma start_threads_grows:
  assumes "start_threads env thread_count A B R = Some (None, arguments, R')"
    and "thread_count < 4294967296" and "noRows A < 18446744073709551616"
  shows "grows (sum_list (map (row_macs A B) [0..<noRows A])) R R'"
proof -
  let ?rows = "noRows A"
  let ?step = "?rows div thread_count" and ?rest = "?rows mod thread_count"
  let ?b = "\<lambda>i. i * ?step + min i ?rest"
  from assms(1) have tc: "1 \<le> thread_count"
    and run: "run_workers env A B 0 (build_arguments thread_count ?rows) R = Some (None, R')"
    by (auto simp add: start_threads_def Let_def Option.bind_eq_Some_conv split: if_splits)
  have args: "build_arguments thread_count ?rows
                = map (\<lambda>i. \<lparr>start_row = ?b i, end_row = ?b (Suc i)\<rparr>) [0..<thread_count]"
    using build_arguments_closed [OF tc assms(2,3)] .
  have "?rest < thread_count"
    using tc by simp
  then have total: "?b thread_count = ?rows"
    by (simp add: min_def)
  have "sum_list (map (\<lambda>arg. sum_list (map (row_macs A B) [start_row arg..<end_row arg]))
                   (build_arguments thread_count ?rows))
          = sum_list (map (\<lambda>i. sum_list (map (row_macs A B) [?b i..<?b (Suc i)])) [0..<thread_count])"
    unfolding args by (simp add: comp_def)
  also have "\<dots> = sum_list (map (row_macs A B) [?b 0..<?b thread_count])"
    by (rule sum_list_ranges) (simp add: min_def)
  finally show ?thesis
    using run_workers_grows [OF run] total by simp
qed

lemma matr_mult_csr_size:
  assumes "matr_mult_csr env A B h = Some (None, h')" and "valid_pair A B"
  shows "h_valuesSize h' \<le> min (mac_count A B) (noRows A * noCols B)"
proof (cases "valuesSize A < 10000 \<or> noRows A < 2")
  case True
  then have "matr_mult_csr_V5 env A B h = Some (None, h')"
    using assms(1) by (simp add: matr_mult_csr_def)
  then show ?thesis
    using assms(2) by (rule matr_mult_csr_V5_size)
next
  case False
  have A: "valid_csr A" and dense: "noRows A * noCols B < 18446744073709551616"
    using assms(2) by (simp_all add: valid_pair_def)
  from assms(1) False obtain code h0 R0 thread_count start_result arguments R1 code' R'
    where init: "init_empty_csr_matrix env A B h False = Some (code, h0)"
      and code: "code \<noteq> Some HEAP_MEMORY_ERROR" and R0: "deref h0 = Some R0"
      and start: "start_threads env (u32 thread_count) A B R0 = Some (start_result, arguments, R1)"
      and started: "start_result \<noteq> Some THREAD_START_ERROR"
                   "start_result \<noteq> Some HEAP_MEMORY_ERROR"
      and clean': "clean_up_csr env R1 = Some (code', R')"
      and code': "code' \<noteq> Some HEAP_MEMORY_ERROR" and h': "h' = handle_of R'"
    by (auto simp add: matr_mult_csr_def Let_def Option.bind_eq_Some_conv
          split: if_splits option.splits)
  have clean: "clean_up_csr env R1 = Some (None, R')"
    using clean' clean_up_csr_code [OF clean' code'] by simp
  have "start_result = None"
    using start started run_workers_code
    by (fastforce simp add: start_threads_def Let_def Option.bind_eq_Some_conv split: if_splits)
  then have start': "start_threads env (u32 thread_count) A B R0 = Some (None, arguments, R1)"
    using start by simp
  have "u32 thread_count < 4294967296"
    by (simp add: u32_def)
  moreover have "noRows A < 18446744073709551616"
    using valid_csr_facts(10) [OF A] by simp
  ultimately have "grows (sum_list (map (row_macs A B) [0..<noRows A])) R0 R1"
    by (rule start_threads_grows [OF start'])
  then have kernel: "grows (mac_count A B) R0 R1"
    using total_macs [OF A] by simp
  have buffer: "values R0 = replicate (noRows A * noCols B) 0"
    using init_empty_csr_matrix_buffer [OF init code R0] dense by (simp add: u64_small)
  from compacted_size_bound [OF buffer kernel clean] show ?thesis
    unfolding h' by (simp add: handle_of_def)
qed

subsection \<open>The dense kernel\<close>

lemma length_nonzero_entries:
  "length (nonzero_entries row) = card {j. j < length row \<and> row ! j \<noteq> 0}"
proof -
  have "set (map fst (nonzero_entries row)) = {j. j < length row \<and> row ! j \<noteq> 0}"
  proof (rule set_eqI)
    fix j
    have "j \<in> set (map fst (nonzero_entries row))
            \<longleftrightarrow> (\<exists>v. (j, v) \<in> set (nonzero_entries row))"
      by force
    then show "j \<in> set (map fst (nonzero_entries row))
                 \<longleftrightarrow> j \<in> {j. j < length row \<and> row ! j \<noteq> 0}"
      by (simp add: set_nonzero_entries)
  qed
  then show ?thesis
    using distinct_card [OF distinct_nonzero_entries, of row] by simp
qed

lemma length_nonzero_entries_le: "length (nonzero_entries row) \<le> length row"
  unfolding nonzero_entries_def
  using length_filter_le [of "\<lambda>(j, v). v \<noteq> 0" "zip [0..<length row] row"] by simp

lemma product_support_step:
  fixes a b res :: "('a::semiring_0) list list"
  assumes "product_support rows cols a b res"
    and "do {
           row \<leftarrow> rd res i;
           old \<leftarrow> rd row j;
           ra \<leftarrow> rd a i;
           av \<leftarrow> rd ra k;
           rb \<leftarrow> rd b k;
           bv \<leftarrow> rd rb j;
           row' \<leftarrow> wr row j (old + av * bv);
           wr res i row' } = Some res'"
  shows "product_support rows cols a b res'"
proof -
  from assms(2) have i: "i < length res" and j: "j < length (res ! i)"
    and k: "k < length (a ! i)" "k < length b"
    and res': "res' = res[i := (res ! i)[j := res ! i ! j + a ! i ! k * b ! k ! j]]"
    by (auto simp add: rd_def wr_def Option.bind_eq_Some_conv split: if_splits)
  have len: "length res = rows" and row_len: "\<And>r. r < rows \<Longrightarrow> length (res ! r) = cols"
    and support: "\<And>r c. r < rows \<Longrightarrow> c < cols \<Longrightarrow> res ! r ! c \<noteq> 0 \<Longrightarrow>
       \<exists>k. k < length (a ! r) \<and> k < length b \<and> a ! r ! k \<noteq> 0 \<and> b ! k ! c \<noteq> 0"
    using assms(1) by (simp_all add: product_support_def)
  have cell: "\<exists>k. k < length (a ! r) \<and> k < length b \<and> a ! r ! k \<noteq> 0 \<and> b ! k ! c \<noteq> 0"
    if r: "r < rows" and c: "c < cols" and nz: "res' ! r ! c \<noteq> 0" for r c
  proof (cases "r = i \<and> c = j")
    case True
    then have "res' ! r ! c = res ! i ! j + a ! i ! k * b ! k ! j"
      using i j res' by simp
    with nz have "res ! i ! j \<noteq> 0 \<or> a ! i ! k * b ! k ! j \<noteq> 0"
      by auto
    then show ?thesis
    proof
      assume "res ! i ! j \<noteq> 0"
      then show ?thesis
        using support [OF r c] True by simp
    next
      assume "a ! i ! k * b ! k ! j \<noteq> 0"
      then have "a ! i ! k \<noteq> 0" and "b ! k ! j \<noteq> 0"
        by auto
      then show ?thesis
        using k True by blast
    qed
  next
    case False
    then have "res' ! r ! c = res ! r ! c"
      using i j res' r len by (cases "r = i") simp_all
    then show ?thesis
      using support [OF r c] nz by simp
  qed
  have "length (res' ! r) = cols" if "r < rows" for r
    using that row_len [of r] i res' by (cases "r = i") simp_all
  moreover have "length res' = rows"
    using len res' by simp
  ultimately show ?thesis
    unfolding product_support_def using cell by blast
qed

lemma dense_multiply_support:
  fixes a b :: "('a::semiring_0) list list"
  assumes "dense_multiply rows cols inner a b (replicate rows (replicate cols 0)) = Some res"
  shows "product_support rows cols a b res"
proof -
  let ?P = "product_support rows cols a b"
  let ?cell = "\<lambda>i j k res. do {
                row \<leftarrow> rd res i;
                old \<leftarrow> rd row j;
                ra \<leftarrow> rd a i;
                av \<leftarrow> rd ra k;
                rb \<leftarrow> rd b k;
                bv \<leftarrow> rd rb j;
                row' \<leftarrow> wr row j (old + av * bv);
                wr res i row' }"
  have cell: "?P t'" if "?P t" and "?cell i j k t = Some t'" for i j k t t'
    using that by (rule product_support_step)
  have column: "?P t'" if "?P t" and "for_loop [0..<inner] (?cell i j) t = Some t'" for i j t t'
    using that(2,1) by (rule for_loop_preserves) (rule cell)
  have row: "?P t'"
    if "?P t" and "for_loop [0..<cols] (\<lambda>j res. for_loop [0..<inner] (?cell i j) res) t = Some t'"
    for i t t'
    using that(2,1) by (rule for_loop_preserves) (rule column)
  have "?P (replicate rows (replicate cols 0))"
    by (simp add: product_support_def)
  with assms [unfolded dense_multiply_def] show ?thesis
    by (rule for_loop_preserves) (rule row)
qed

text \<open>A cell of the dense form that is not zero is a stored entry of its row.\<close>

lemma csr_dense_nonzero:
  assumes "i < noRows M" and "k < noCols M" and "csr_dense M ! i ! k \<noteq> 0"
  shows "\<exists>p. rowPointers M ! i \<le> p \<and> p < rowPointers M ! (i + 1) \<and> colIndices M ! p = k"
proof -
  have "csr_dense M ! i = scatter (row_entries M i) (replicate (noCols M) 0)"
    using assms(1) by (simp add: csr_dense_def)
  then have "k \<in> fst ` set (row_entries M i)"
    using assms(2,3) scatter_nth_notin [of k "row_entries M i" "replicate (noCols M) 0"]
    by auto
  then show ?thesis
    by (auto simp add: row_entries_def)
qed

lemma length_csr_dense_row: "i < noRows M \<Longrightarrow> length (csr_dense M ! i) = noCols M"
  by (simp add: csr_dense_def)

lemma product_row_count:
  fixes A B :: "('a::semiring_0) Matrix"
  assumes "product_support (noRows A) (noCols B) (csr_dense A) (csr_dense B) res"
    and "noCols A = noRows B" and "i < noRows A"
  shows "length (nonzero_entries (res ! i)) \<le> row_macs A B i"
proof -
  let ?columns = "\<lambda>p. (\<lambda>q. colIndices B ! q) `
      {rowPointers B ! (colIndices A ! p)..<rowPointers B ! (colIndices A ! p + 1)}"
  let ?range = "{rowPointers A ! i..<rowPointers A ! (i + 1)}"
  have len: "length (res ! i) = noCols B"
    using assms(1,3) by (simp add: product_support_def)
  have "{j. j < length (res ! i) \<and> res ! i ! j \<noteq> 0} \<subseteq> (\<Union>p\<in>?range. ?columns p)"
  proof
    fix j
    assume "j \<in> {j. j < length (res ! i) \<and> res ! i ! j \<noteq> 0}"
    then have j: "j < noCols B" and nz: "res ! i ! j \<noteq> 0"
      using len by simp_all
    from assms(1,3) j nz obtain k
      where k: "k < length (csr_dense A ! i)" "k < length (csr_dense B)"
        and a: "csr_dense A ! i ! k \<noteq> 0" and b: "csr_dense B ! k ! j \<noteq> 0"
      unfolding product_support_def by blast
    have kA: "k < noCols A"
      using k(1) assms(3) by (simp add: length_csr_dense_row)
    have kB: "k < noRows B"
      using k(2) by (simp add: csr_dense_def)
    from csr_dense_nonzero [OF assms(3) kA a] obtain p
      where p: "p \<in> ?range" and cp: "colIndices A ! p = k"
      by auto
    from csr_dense_nonzero [OF kB j b] obtain q
      where "rowPointers B ! k \<le> q" "q < rowPointers B ! (k + 1)" "colIndices B ! q = j"
      by auto
    then have "j \<in> ?columns p"
      unfolding cp by auto
    then show "j \<in> (\<Union>p\<in>?range. ?columns p)"
      using p by blast
  qed
  then have "card {j. j < length (res ! i) \<and> res ! i ! j \<noteq> 0} \<le> card (\<Union>p\<in>?range. ?columns p)"
    by (intro card_mono) simp_all
  also have "\<dots> \<le> (\<Sum>p\<in>?range. card (?columns p))"
    by (rule card_UN_le) simp
  also have "\<dots> \<le> (\<Sum>p\<in>?range. row_length B (colIndices A ! p))"
  proof (rule sum_mono)
    fix p
    have "card (?columns p)
            \<le> card {rowPointers B ! (colIndices A ! p)..<rowPointers B ! (colIndices A ! p + 1)}"
      by (rule card_image_le) simp
    then show "card (?columns p) \<le> row_length B (colIndices A ! p)"
      by (simp add: row_length_def)
  qed
  also have "\<dots> = row_macs A B i"
    unfolding row_macs_def by (simp add: interv_sum_list_conv_sum_set_nat)
  finally show ?thesis
    by (simp add: length_nonzero_entries)
qed

lemma length_entries_before:
  assumes "length D = rows"
  shows "length (entries_before D rows)
           = sum_list (map (\<lambda>i. length (nonzero_entries (D ! i))) [0..<rows])"
proof -
  have "map (\<lambda>i. length (nonzero_entries (D ! i))) [0..<rows]
          = map (\<lambda>row. length (nonzero_entries row)) (map (\<lambda>i. D ! i) [0..<length D])"
    using assms by simp
  also have "\<dots> = map (\<lambda>row. length (nonzero_entries row)) D"
    by (simp only: map_nth)
  finally show ?thesis
    using assms by (simp add: entries_before_def length_concat comp_def)
qed

lemma sum_list_upt_mono:
  fixes f g :: "nat \<Rightarrow> nat"
  assumes "\<And>i. i < n \<Longrightarrow> f i \<le> g i"
  shows "sum_list (map f [0..<n]) \<le> sum_list (map g [0..<n])"
  using assms by (intro sum_list_mono) simp

lemma matr_mult_csr_V1_size:
  fixes A B :: "('a::semiring_0) Matrix"
  assumes "matr_mult_csr_V1 env A B h = Some (None, h')" and "valid_pair A B"
  shows "h_valuesSize h' \<le> min (mac_count A B) (noRows A * noCols B)"
proof -
  have A: "valid_csr A" and B: "valid_csr B" and mult: "noCols A = noRows B"
    using assms(2) by (simp_all add: valid_pair_def can_multiply_def)
  let ?rows = "noRows A" and ?cols = "noCols B"
  from assms(1) obtain ord_a ord_b res tmp
    where a: "csr_to_ordinary env A = Some (Some ord_a)"
      and b: "csr_to_ordinary env B = Some (Some ord_b)"
      and product: "dense_multiply ?rows ?cols (noCols A) ord_a ord_b
                      (replicate ?rows (replicate ?cols 0)) = Some res"
      and converted: "ordinary_to_csr env ?rows ?cols res = Some (Some tmp)"
      and h': "h' = handle_of tmp"
    by (auto simp add: matr_mult_csr_V1_def Option.bind_eq_Some_conv
          split: if_splits option.splits)
  have "ord_a = csr_dense A"
    using csr_to_ordinary_result [OF valid_csr_shape [OF A], of env] a by simp
  moreover have "ord_b = csr_dense B"
    using csr_to_ordinary_result [OF valid_csr_shape [OF B], of env] b by simp
  ultimately have support: "product_support ?rows ?cols (csr_dense A) (csr_dense B) res"
    using dense_multiply_support [OF product] by simp
  then have shape: "dense_shape ?rows ?cols res"
    by (auto simp add: product_support_def dense_shape_def list_all_length)
  have "tmp = dense_csr ?rows ?cols res"
    using ordinary_to_csr_result [OF shape, of env] converted by simp
  then have size: "h_valuesSize h' = length (entries_before res ?rows)"
    unfolding h' by (simp add: handle_of_def dense_csr_def)
  have len: "length res = ?rows"
    using support by (simp add: product_support_def)
  have sum: "length (entries_before res ?rows)
           = sum_list (map (\<lambda>i. length (nonzero_entries (res ! i))) [0..<?rows])"
    by (rule length_entries_before [OF len])
  have "sum_list (map (\<lambda>i. length (nonzero_entries (res ! i))) [0..<?rows])
          \<le> sum_list (map (row_macs A B) [0..<?rows])"
    by (rule sum_list_upt_mono) (rule product_row_count [OF support mult])
  then have macs: "h_valuesSize h' \<le> mac_count A B"
    using size sum total_macs [OF A, of B] by simp
  have "sum_list (map (\<lambda>i. length (nonzero_entries (res ! i))) [0..<?rows])
          \<le> sum_list (map (\<lambda>i. ?cols) [0..<?rows])"
  proof (rule sum_list_upt_mono)
    fix i
    assume "i < ?rows"
    then have "length (res ! i) = ?cols"
      using support by (simp add: product_support_def)
    then show "length (nonzero_entries (res ! i)) \<le> ?cols"
      using length_nonzero_entries_le [of "res ! i"] by simp
  qed
  then have "h_valuesSize h' \<le> ?rows * ?cols"
    using size sum by (simp add: sum_list_triv)
  with macs show ?thesis
    by simp
qed

section \<open>The size prediction bounds every kernel\<close>

text \<open>The operands of the scenario are a valid pair, and the size-predicted and the scalar kernel multiply them.\<close>

lemma scenario_valid_pair: "valid_pair scenario_A scenario_B"
  by (simp add: valid_pair_def valid_csr_def compact_csr_def can_multiply_def mac_count_def
        scenario_A_def scenario_B_def upt_eval)

lemma scenario_mac_count: "mac_count scenario_A scenario_B = 2"
  by (simp add: mac_count_def scenario_A_def scenario_B_def upt_eval)

lemma scenario_predicted_run:
  "matr_mult_csr_V5 (env_ok True) scenario_A scenario_B null_handle = Some (None, scenario_product)"
  by (simp add: matr_mult_csr_V5_def eval_kernels eval_basics scenario_A_def scenario_B_def
        scenario_product_def env_ok_def null_handle_def)

lemma scenario_scalar_run:
  "matr_mult_csr_V2 (env_ok True) scenario_A scenario_B null_handle = Some (None, scenario_product)"
  by (simp add: matr_mult_csr_V2_def eval_kernels eval_basics scenario_A_def scenario_B_def
        scenario_product_def env_ok_def null_handle_def)

text \<open>
  Within the index type the prediction is the count of the specification. For every valid
  pair of operands that can be multiplied, with a dense result size and a number of
  multiply-accumulate steps below \<open>2^64\<close>,
  \<open>predict_values_dimension\<close> returns without a fault; when both of its scratch arrays are
  granted it reports success and stores the smaller of the sum over the columns \<open>c\<close> of A of
  (stored entries of A in column \<open>c\<close>) times (stored entries of row \<open>c\<close> of B) and the
  number of rows of A times the number of columns of B, and otherwise it reports
  \<open>HEAP_MEMORY_ERROR\<close>. That predicted count is at most rows of A times columns of B, and
  whichever kernel the dispatch table selects, in whatever environment and on whatever
  result handle, a product it returns without an error has at most the predicted count of
  stored values.
\<close>

theorem prediction_bounds_every_kernel:
  fixes A B :: "('a::semiring_0) Matrix"
  assumes "valid_pair A B"
  shows "predict_values_dimension env A B =
           (if calloc env (noCols A) 8 \<and> calloc env (noRows B) 8
            then Some (None, min (mac_count A B) (noRows A * noCols B))
            else Some (Some HEAP_MEMORY_ERROR, 0)) \<and>
         min (mac_count A B) (noRows A * noCols B) \<le> noRows A * noCols B \<and>
         (\<forall>implementation kernel environment h h'.
            choose_mult_fn implementation = Some kernel \<longrightarrow>
            kernel environment A B h = Some (None, h') \<longrightarrow>
            h_valuesSize h' \<le> min (mac_count A B) (noRows A * noCols B))"
proof -
  let ?predicted = "min (mac_count A B) (noRows A * noCols B)"
  have kernels: "h_valuesSize h' \<le> ?predicted"
    if chosen: "choose_mult_fn implementation = Some kernel"
      and run: "kernel environment A B h = Some (None, h')"
    for implementation and kernel and environment :: "'a env" and h h'
  proof -
    from chosen consider "kernel = matr_mult_csr" | "kernel = matr_mult_csr_V1"
      | "kernel = matr_mult_csr_V2" | "kernel = matr_mult_csr_V3"
      | "kernel = matr_mult_csr_V4" | "kernel = matr_mult_csr_V5"
      by (auto simp add: choose_mult_fn_def split: if_splits)
    then show ?thesis
    proof cases
      case 1
      with run show ?thesis
        using matr_mult_csr_size [OF _ assms] by simp
    next
      case 2
      with run show ?thesis
        using matr_mult_csr_V1_size [OF _ assms] by simp
    next
      case 3
      with run show ?thesis
        using matr_mult_csr_V2_size [OF _ assms] by simp
    next
      case 4
      with run have "matr_mult_simd 4 environment A B h = Some (None, h')"
        by (simp add: matr_mult_csr_V3_def)
      then show ?thesis
        using assms by (rule matr_mult_simd_size)
    next
      case 5
      show ?thesis
      proof (cases "cpu_avx environment")
        case True
        with run 5 have "matr_mult_simd 8 environment A B h = Some (None, h')"
          by (simp add: matr_mult_csr_V4_def)
        then show ?thesis
          using assms by (rule matr_mult_simd_size)
      next
        case False
        with run 5 have "matr_mult_csr_V1 environment A B h = Some (None, h')"
          by (simp add: matr_mult_csr_V4_def)
        then show ?thesis
          using assms by (rule matr_mult_csr_V1_size)
      qed
    next
      case 6
      with run show ?thesis
        using matr_mult_csr_V5_size [OF _ assms] by simp
    qed
  qed
  have "?predicted \<le> noRows A * noCols B"
    by simp
  with predict_values_dimension_result [OF assms, of env] kernels show ?thesis
    by blast
qed

theorem prediction_bounds_every_kernel_witness:
  "valid_pair scenario_A scenario_B \<and>
   predict_values_dimension (env_ok True) scenario_A scenario_B = Some (None, 2) \<and>
   2 \<le> noRows scenario_A * noCols scenario_B \<and>
   choose_mult_fn 5 = Some matr_mult_csr_V5 \<and>
   matr_mult_csr_V5 (env_ok True) scenario_A scenario_B null_handle = Some (None, scenario_product) \<and>
   choose_mult_fn 2 = Some matr_mult_csr_V2 \<and>
   matr_mult_csr_V2 (env_ok True) scenario_A scenario_B null_handle = Some (None, scenario_product) \<and>
   h_valuesSize scenario_product \<le> 2"
proof -
  have dense: "noRows scenario_A * noCols scenario_B = 4"
    by (simp add: scenario_A_def scenario_B_def)
  have predicted: "min (mac_count scenario_A scenario_B) (noRows scenario_A * noCols scenario_B) = 2"
    unfolding scenario_mac_count dense by simp
  have granted: "calloc (env_ok True) (noCols scenario_A) 8 \<and> calloc (env_ok True) (noRows scenario_B) 8"
    by (simp add: calloc_def env_ok_def scenario_A_def scenario_B_def)
  have chosen: "choose_mult_fn 5 = Some matr_mult_csr_V5" "choose_mult_fn 2 = Some matr_mult_csr_V2"
    by (simp_all add: choose_mult_fn_def)
  note bounds = prediction_bounds_every_kernel [OF scenario_valid_pair, of "env_ok True",
      unfolded predicted]
  from bounds have "predict_values_dimension (env_ok True) scenario_A scenario_B = Some (None, 2)"
    using granted by simp
  moreover from bounds have "2 \<le> noRows scenario_A * noCols scenario_B"
    by simp
  moreover from bounds chosen(1) scenario_predicted_run have "h_valuesSize scenario_product \<le> 2"
    by blast
  ultimately show ?thesis
    using scenario_valid_pair chosen scenario_predicted_run scenario_scalar_run by simp
qed

section \<open>The size prediction wraps around\<close>

lemma u64_wraps: "u64 18446744073709551616 = 0"
  by (simp add: u64_def)

text \<open>
  Claim C2 says that for every valid pair that can be multiplied
  \<open>predict_values_dimension\<close> stores the smaller of the number of multiply-accumulate steps
  and \<open>rowCount_A * colCount_B\<close>. The code computes that product as
  \<open>matrix_a->noRows * matrix_b->noCols\<close> in \<open>uint64_t\<close> without a check (its allocations
  go through \<open>malloc_safe\<close> and \<open>__builtin_umull_overflow\<close>). The matrices \<open>wide_A\<close> and
  \<open>wide_B\<close> are valid, pass the three checks of the reader and can be multiplied; their
  product has two stored values, one in each row, and the claim's count is
  \<open>min 2 (2 * 2^63) = 2\<close>. The product of the dimensions wraps to 0, so
  \<open>predict_values_dimension\<close> reports success and stores 0, and \<open>matr_mult_csr_V5\<close>, whose
  result then has no slot at all, reports success and returns a product without any
  value.
\<close>

theorem prediction_wraps_on_wide_result:
  "valid_csr wide_A \<and> valid_csr wide_B \<and> can_multiply wide_A wide_B \<and>
   check_values (values wide_A) (valuesSize wide_A) (noRows wide_A) (noCols wide_A) = Some True \<and>
   check_col_indices (colIndices wide_A) (valuesSize wide_A) (valuesSize wide_A) (noCols wide_A)
     = Some True \<and>
   check_row_pointers (rowPointers wide_A) (rowPointersSize wide_A) (valuesSize wide_A)
     (noRows wide_A) (noCols wide_A) = Some True \<and>
   check_values (values wide_B) (valuesSize wide_B) (noRows wide_B) (noCols wide_B) = Some True \<and>
   check_col_indices (colIndices wide_B) (valuesSize wide_B) (valuesSize wide_B) (noCols wide_B)
     = Some True \<and>
   check_row_pointers (rowPointers wide_B) (rowPointersSize wide_B) (valuesSize wide_B)
     (noRows wide_B) (noCols wide_B) = Some True \<and>
   min (mac_count wide_A wide_B) (noRows wide_A * noCols wide_B) = 2 \<and>
   predict_values_dimension (env_ok True) wide_A wide_B = Some (None, 0) \<and>
   matr_mult_csr_V5 (env_ok True) wide_A wide_B null_handle =
     Some (None, \<lparr>h_noRows = 2, h_noCols = 9223372036854775808, h_values = Some [],
                  h_valuesSize = 0, h_colIndices = Some [], h_rowPointers = Some [0, 0, 0],
                  h_rowPointersSize = 3\<rparr>)"
proof -
  have "valid_csr wide_A" and "valid_csr wide_B" and "can_multiply wide_A wide_B"
    by (simp_all add: valid_csr_def compact_csr_def can_multiply_def wide_A_def wide_B_def)
  moreover have "check_values (values wide_A) (valuesSize wide_A) (noRows wide_A) (noCols wide_A)
      = Some True"
    and "check_col_indices (colIndices wide_A) (valuesSize wide_A) (valuesSize wide_A)
      (noCols wide_A) = Some True"
    and "check_row_pointers (rowPointers wide_A) (rowPointersSize wide_A) (valuesSize wide_A)
      (noRows wide_A) (noCols wide_A) = Some True"
    by (simp_all add: check_values_def check_col_indices_def check_row_pointers_def eval_basics
          wide_A_def)
  moreover have "check_values (values wide_B) (valuesSize wide_B) (noRows wide_B) (noCols wide_B)
      = Some True"
    and "check_col_indices (colIndices wide_B) (valuesSize wide_B) (valuesSize wide_B)
      (noCols wide_B) = Some True"
    and "check_row_pointers (rowPointers wide_B) (rowPointersSize wide_B) (valuesSize wide_B)
      (noRows wide_B) (noCols wide_B) = Some True"
    by (simp_all add: check_values_def check_col_indices_def check_row_pointers_def eval_basics
          wide_B_def)
  moreover have "min (mac_count wide_A wide_B) (noRows wide_A * noCols wide_B) = 2"
    by (simp add: mac_count_def wide_A_def wide_B_def upt_eval)
  moreover have "predict_values_dimension (env_ok True) wide_A wide_B = Some (None, 0)"
    by (simp add: predict_values_dimension_def u64_wraps eval_basics wide_A_def wide_B_def
          env_ok_def)
  moreover have "matr_mult_csr_V5 (env_ok True) wide_A wide_B null_handle =
     Some (None, \<lparr>h_noRows = 2, h_noCols = 9223372036854775808, h_values = Some [],
                  h_valuesSize = 0, h_colIndices = Some [], h_rowPointers = Some [0, 0, 0],
                  h_rowPointersSize = 3\<rparr>)"
    by (simp add: matr_mult_csr_V5_def u64_wraps eval_kernels eval_basics wide_A_def wide_B_def
          env_ok_def null_handle_def)
  ultimately show ?thesis
    by blast
qed

section \<open>The insertion sort of a row\<close>

lemma segment_permuted_refl: "segment_permuted b e M M"
  by (simp add: segment_permuted_def)

lemma segment_permuted_trans:
  "segment_permuted b e M M' \<Longrightarrow> segment_permuted b e M' M'' \<Longrightarrow> segment_permuted b e M M''"
  by (simp add: segment_permuted_def)

text \<open>A swap of two cells of the segment, as \<open>_swap_cols\<close> and \<open>_swap_values\<close> make it.\<close>

lemma swap_in_segment:
  assumes lengths: "length (colIndices M) = n" "length (values M) = n" "valuesSize M = n"
    and p: "b \<le> p" "p < e" "p < n" and q: "b \<le> q" "q < e" "q < n"
    and cs: "swap_cols (colIndices M) (valuesSize M) p q = Some cs"
    and vs: "swap_values (values M) (valuesSize M) p q = Some vs"
  shows "cs = (colIndices M)[q := colIndices M ! p, p := colIndices M ! q]"
    and "segment_permuted b e M (M\<lparr>colIndices := cs, values := vs\<rparr>)"
proof -
  let ?C = "colIndices M" and ?V = "values M"
  show cs': "cs = ?C[q := ?C ! p, p := ?C ! q]"
    using cs lengths p(3) q(3)
    by (auto simp add: swap_cols_def rd_def wr_def Option.bind_eq_Some_conv split: if_splits)
  have vs': "vs = ?V[q := ?V ! p, p := ?V ! q]"
    using vs lengths p(3) q(3)
    by (auto simp add: swap_values_def rd_def wr_def Option.bind_eq_Some_conv split: if_splits)
  let ?f = "\<lambda>k. (?C ! k, ?V ! k)" and ?g = "\<lambda>k. (cs ! k, vs ! k)"
  have g: "?g k = (if k = p then ?f q else if k = q then ?f p else ?f k)" if "k < n" for k
    using that lengths p(3) q(3) unfolding cs' vs' by (simp add: nth_list_update)
  have "map ?g [b..<e] = (map ?f [b..<e])[q - b := map ?f [b..<e] ! (p - b),
                                           p - b := map ?f [b..<e] ! (q - b)]"
  proof (rule nth_equalityI)
    show "length (map ?g [b..<e])
            = length ((map ?f [b..<e])[q - b := map ?f [b..<e] ! (p - b),
                                        p - b := map ?f [b..<e] ! (q - b)])"
      by simp
  next
    fix k
    assume "k < length (map ?g [b..<e])"
    then have k: "k < e - b"
      by simp
    show "map ?g [b..<e] ! k
            = (map ?f [b..<e])[q - b := map ?f [b..<e] ! (p - b),
                               p - b := map ?f [b..<e] ! (q - b)] ! k"
    proof (cases "b + k < n")
      case True
      then show ?thesis
        using k p q g [of "b + k"] by (auto simp add: nth_list_update)
    next
      case False
      then have "b + k \<noteq> p" "b + k \<noteq> q" "k \<noteq> p - b" "k \<noteq> q - b"
        using p q by auto
      moreover have "cs ! (b + k) = ?C ! (b + k)" "vs ! (b + k) = ?V ! (b + k)"
        using \<open>b + k \<noteq> p\<close> \<open>b + k \<noteq> q\<close> unfolding cs' vs' by simp_all
      ultimately show ?thesis
        using k by simp
    qed
  qed
  moreover have "mset ((map ?f [b..<e])[q - b := map ?f [b..<e] ! (p - b),
                                         p - b := map ?f [b..<e] ! (q - b)])
                   = mset (map ?f [b..<e])"
    using p q by (intro mset_swap) simp_all
  ultimately have "mset (map ?g [b..<e]) = mset (map ?f [b..<e])"
    by simp
  moreover have "cs ! k = ?C ! k \<and> vs ! k = ?V ! k" if "k < b \<or> e \<le> k" for k
  proof -
    have "k \<noteq> p" "k \<noteq> q"
      using that p q by auto
    then show ?thesis
      unfolding cs' vs' by simp
  qed
  ultimately show "segment_permuted b e M (M\<lparr>colIndices := cs, values := vs\<rparr>)"
    unfolding segment_permuted_def using cs' vs' by simp
qed

text \<open>The three ways the inner loop ends leave the cells \<open>[b, i]\<close> sorted.\<close>

lemma inserting_start:
  assumes "segment_sorted b i cs" and "b \<le> i"
  shows "inserting b i i (cs ! i) cs"
  using assms unfolding inserting_def segment_sorted_def by auto

lemma inserting_at_begin:
  assumes "inserting b i b col cs"
  shows "segment_sorted b (i + 1) cs"
  unfolding segment_sorted_def
proof (intro allI impI)
  fix p q
  assume pq: "b \<le> p \<and> p \<le> q \<and> q < i + 1"
  show "cs ! p \<le> cs ! q"
  proof (cases "p = b")
    case True
    then show ?thesis
      using assms pq unfolding inserting_def by (cases "q = b") (auto simp add: less_imp_le)
  next
    case False
    then have "p \<noteq> b" "q \<noteq> b"
      using pq by auto
    then show ?thesis
      using assms pq unfolding inserting_def by auto
  qed
qed

lemma inserting_in_place:
  assumes "inserting b i cur col cs" and "b < cur" and "cs ! (cur - 1) \<le> col"
  shows "segment_sorted b (i + 1) cs"
  unfolding segment_sorted_def
proof (intro allI impI)
  fix p q
  assume pq: "b \<le> p \<and> p \<le> q \<and> q < i + 1"
  have inv: "cs ! cur = col"
    and others: "\<And>p q. b \<le> p \<Longrightarrow> p \<le> q \<Longrightarrow> q \<le> i \<Longrightarrow> p \<noteq> cur \<Longrightarrow> q \<noteq> cur \<Longrightarrow> cs ! p \<le> cs ! q"
    and behind: "\<And>q. cur < q \<Longrightarrow> q \<le> i \<Longrightarrow> col < cs ! q"
    and cur: "cur \<le> i"
    using assms(1) unfolding inserting_def by auto
  consider "p \<noteq> cur" "q \<noteq> cur" | "p = cur" "q = cur" | "p = cur" "cur < q" | "q = cur" "p < cur"
    using pq by linarith
  then show "cs ! p \<le> cs ! q"
  proof cases
    case 1
    then show ?thesis using others pq by simp
  next
    case 2
    then show ?thesis by simp
  next
    case 3
    then show ?thesis using behind [of q] inv pq by simp
  next
    case 4
    then have "p \<le> cur - 1" "cur - 1 \<noteq> cur"
      using assms(2) by simp_all
    then have "cs ! p \<le> cs ! (cur - 1)"
      using others [of p "cur - 1"] pq 4 cur assms(2) by simp
    then show ?thesis
      using assms(3) inv 4 by simp
  qed
qed

lemma inserting_step:
  assumes "inserting b i cur col cs" and "b < cur" and "col < cs ! (cur - 1)" and "i < length cs"
  shows "inserting b i (cur - 1) col (cs[cur - 1 := cs ! cur, cur := cs ! (cur - 1)])"
proof -
  let ?j = "cur - 1"
  let ?cs = "cs[?j := cs ! cur, cur := cs ! ?j]"
  have inv: "cs ! cur = col"
    and others: "\<And>p q. b \<le> p \<Longrightarrow> p \<le> q \<Longrightarrow> q \<le> i \<Longrightarrow> p \<noteq> cur \<Longrightarrow> q \<noteq> cur \<Longrightarrow> cs ! p \<le> cs ! q"
    and behind: "\<And>q. cur < q \<Longrightarrow> q \<le> i \<Longrightarrow> col < cs ! q"
    and cur: "cur \<le> i"
    using assms(1) unfolding inserting_def by auto
  have j: "?j < cur" "b \<le> ?j" "?j < length cs" "cur < length cs"
    using assms(2,4) cur by simp_all
  have at_j: "?cs ! ?j = col"
    using j inv by simp
  have at_cur: "?cs ! cur = cs ! ?j"
    using j by simp
  have elsewhere: "?cs ! k = cs ! k" if "k \<noteq> cur" "k \<noteq> ?j" for k
    using that by simp
  have "?cs ! p \<le> ?cs ! q"
    if pq: "b \<le> p" "p \<le> q" "q \<le> i" "p \<noteq> ?j" "q \<noteq> ?j" for p q
  proof -
    consider "p \<noteq> cur" "q \<noteq> cur" | "p = cur" "q = cur" | "p = cur" "cur < q" | "q = cur" "p < ?j"
      using pq j by linarith
    then show ?thesis
    proof cases
      case 1
      then show ?thesis using others pq elsewhere by simp
    next
      case 2
      then show ?thesis by simp
    next
      case 3
      then have "cs ! ?j \<le> cs ! q"
        using others [of ?j q] j pq by simp
      then show ?thesis
        using 3 at_cur elsewhere [of q] pq j by simp
    next
      case 4
      then have "cs ! p \<le> cs ! ?j"
        using others [of p ?j] pq j cur by simp
      then show ?thesis
        using 4 at_cur elsewhere [of p] j by simp
    qed
  qed
  moreover have "col < ?cs ! q" if q: "?j < q" "q \<le> i" for q
  proof (cases "q = cur")
    case True
    then show ?thesis using at_cur assms(3) by simp
  next
    case False
    then have "cur < q" using q j by linarith
    then show ?thesis
      using behind [of q] q elsewhere [of q] False j by simp
  qed
  ultimately show ?thesis
    unfolding inserting_def using j at_j cur by auto
qed

text \<open>
  Below the array nothing is written: the swaps are guarded by \<open>valuesSize\<close>. With fewer
  passes left than there are indices above the array, the scan that has wrapped to the top
  of the index type does not come down to the array again.
\<close>

lemma scan_below_array_unchanged:
  assumes "sort_inner fuel oob beg col cur j M = Some M'"
    and "valuesSize M \<le> j" and "fuel + valuesSize M \<le> j + 1" and "j < 18446744073709551616"
  shows "M' = M"
  using assms
proof (induction fuel arbitrary: cur j)
  case 0
  then show ?case by simp
next
  case (Suc fuel)
  show ?case
  proof (cases "j \<ge> beg \<and> col < rd_oob oob (colIndices M) j")
    case False
    then show ?thesis
      using Suc.prems(1) by (auto split: if_splits)
  next
    case True
    have swaps: "swap_cols (colIndices M) (valuesSize M) cur j = Some (colIndices M)"
      "swap_values (values M) (valuesSize M) cur j = Some (values M)"
      using Suc.prems(2) by (simp_all add: swap_cols_def swap_values_def)
    have rec: "sort_inner fuel oob beg col j (u64_sub j 1) M = Some M'"
      using Suc.prems(1) True swaps by simp
    show ?thesis
    proof (cases fuel)
      case 0
      then show ?thesis using rec by simp
    next
      case (Suc f)
      then have j: "1 \<le> j" "valuesSize M \<le> j - 1" "fuel + valuesSize M \<le> (j - 1) + 1"
        using Suc.prems(3) by simp_all
      have "u64_sub j 1 = j - 1"
        using j(1) Suc.prems(4) by (intro u64_sub_small) simp_all
      with rec have rec': "sort_inner fuel oob beg col j (j - 1) M = Some M'"
        by simp
      have "j - 1 < 18446744073709551616"
        using Suc.prems(4) by simp
      from Suc.IH [OF rec' j(2,3) this] show ?thesis .
    qed
  qed
qed

text \<open>
  The inner loop of \<open>sort_matrix\<close>, entered with the entry to insert at \<open>cur\<close>: when it
  returns, it has permuted the cells \<open>[b, i]\<close> among themselves and left them sorted.
\<close>

lemma sort_inner_sorts:
  assumes "sort_inner fuel oob b col cur (u64_sub cur 1) M = Some M'"
    and "length (colIndices M) = n" and "length (values M) = n" and "valuesSize M = n"
    and "fuel + n \<le> 18446744073709551616"
    and "inserting b i cur col (colIndices M)"
    and "i < e" and "e \<le> n"
  shows "segment_permuted b e M M' \<and> segment_sorted b (i + 1) (colIndices M')"
  using assms(1-6)
proof (induction fuel arbitrary: cur M)
  case 0
  then show ?case by simp
next
  case (Suc f)
  note run = Suc.prems(1) and lengths = Suc.prems(2,3,4) and fuel = Suc.prems(5)
    and inv = Suc.prems(6)
  have cur: "b \<le> cur" "cur \<le> i" "cur < n"
    using inv assms(7,8) by (simp_all add: inserting_def)
  show ?case
  proof (cases "cur = 0")
    case True
    then have "b = 0" and j: "u64_sub cur 1 = 18446744073709551615"
      using cur(1) by (simp_all add: u64_sub_zero_Suc)
    have "M' = M"
      using run lengths fuel unfolding j
      by (intro scan_below_array_unchanged [of "Suc f" oob b col cur "18446744073709551615"])
        simp_all
    moreover have "segment_sorted b (i + 1) (colIndices M)"
      using inv True \<open>b = 0\<close> by (intro inserting_at_begin [of b i col]) simp
    ultimately show ?thesis
      by (simp add: segment_permuted_refl)
  next
    case False
    then have j: "u64_sub cur 1 = cur - 1"
      using cur(3) fuel by (intro u64_sub_small) simp_all
    show ?thesis
    proof (cases "b \<le> cur - 1")
      case outside: False
      then have "cur = b"
        using cur(1) False by simp
      moreover have "M' = M"
        using run outside unfolding j by simp
      ultimately show ?thesis
        using inv inserting_at_begin [of b i col "colIndices M"]
        by (simp add: segment_permuted_refl)
    next
      case inside: True
      then have bcur: "b < cur"
        using False by simp
      have "cur - 1 < n"
        using cur(3) by arith
      then have read: "rd_oob oob (colIndices M) (cur - 1) = colIndices M ! (cur - 1)"
        using lengths by (simp add: rd_oob_def)
      show ?thesis
      proof (cases "col < colIndices M ! (cur - 1)")
        case stays: False
        then have "M' = M"
          using run inside read unfolding j by simp
        moreover have "segment_sorted b (i + 1) (colIndices M)"
          using inv bcur stays by (intro inserting_in_place [of b i cur col]) simp_all
        ultimately show ?thesis
          by (simp add: segment_permuted_refl)
      next
        case moves: True
        from run inside read moves obtain cs vs
          where cs: "swap_cols (colIndices M) (valuesSize M) cur (cur - 1) = Some cs"
            and vs: "swap_values (values M) (valuesSize M) cur (cur - 1) = Some vs"
            and rec: "sort_inner f oob b col (cur - 1) (u64_sub (cur - 1) 1)
                        (M\<lparr>colIndices := cs, values := vs\<rparr>) = Some M'"
          unfolding j by (auto simp add: Option.bind_eq_Some_conv)
        let ?M1 = "M\<lparr>colIndices := cs, values := vs\<rparr>"
        have in_segment: "b \<le> cur" "cur < e" "cur < n" "b \<le> cur - 1" "cur - 1 < e" "cur - 1 < n"
          using cur inside assms(7) by simp_all
        note swap = swap_in_segment [OF lengths in_segment cs vs]
        have cs': "cs = (colIndices M)[cur - 1 := colIndices M ! cur, cur := colIndices M ! (cur - 1)]"
          by (rule swap(1))
        have first: "segment_permuted b e M ?M1"
          by (rule swap(2))
        then have lengths1: "length (colIndices ?M1) = n" "length (values ?M1) = n"
          "valuesSize ?M1 = n"
          using lengths by (simp_all add: segment_permuted_def)
        have "i < length (colIndices M)"
          using assms(7,8) lengths by simp
        with inv bcur moves have "inserting b i (cur - 1) col cs"
          unfolding cs' by (rule inserting_step)
        then have inv1: "inserting b i (cur - 1) col (colIndices ?M1)"
          by simp
        have "f + n \<le> 18446744073709551616"
          using fuel by simp
        from Suc.IH [OF rec lengths1 this inv1] first show ?thesis
          using segment_permuted_trans by blast
      qed
    qed
  qed
qed

text \<open>
  The outer loop of \<open>sort_matrix\<close> on the cells \<open>[b, e)\<close>, with \<open>end' = e - 1\<close>: when it
  returns, it has permuted those cells among themselves and left them sorted.
\<close>

lemma sort_outer_sorts:
  assumes "sort_outer passes fuel oob b (e - 1) i M = Some M'"
    and "length (colIndices M) = n" and "length (values M) = n" and "valuesSize M = n"
    and "segment_sorted b i (colIndices M)" and "b \<le> i" and "i \<le> e"
    and "1 \<le> e" and "e \<le> n" and "fuel + n \<le> 18446744073709551616"
  shows "segment_permuted b e M M' \<and> segment_sorted b e (colIndices M')"
  using assms(1-7)
proof (induction passes arbitrary: i M)
  case 0
  then show ?case by simp
next
  case (Suc passes)
  note run = Suc.prems(1) and lengths = Suc.prems(2,3,4) and prefix = Suc.prems(5)
    and i = Suc.prems(6,7)
  show ?case
  proof (cases "i \<le> e - 1")
    case False
    then have "i = e" and "M' = M"
      using i assms(8) run by simp_all
    then show ?thesis
      using prefix by (simp add: segment_permuted_refl)
  next
    case True
    then have ie: "i < e" and "i < n"
      using assms(8,9) by simp_all
    from run True \<open>i < n\<close> lengths obtain m
      where inner: "sort_inner fuel oob b (colIndices M ! i) i (u64_sub i 1) M = Some m"
        and rec': "sort_outer passes fuel oob b (e - 1) (u64 (i + 1)) m = Some M'"
      by (auto simp add: rd_def Option.bind_eq_Some_conv)
    have "fuel \<noteq> 0"
      using inner by (cases fuel) simp_all
    then have "u64 (i + 1) = i + 1"
      using \<open>i < n\<close> assms(10) by (intro u64_small) simp
    with rec' have rec: "sort_outer passes fuel oob b (e - 1) (i + 1) m = Some M'"
      by simp
    have start: "inserting b i i (colIndices M ! i) (colIndices M)"
      using prefix i(1) by (rule inserting_start)
    from sort_inner_sorts [OF inner lengths assms(10) start ie assms(9)]
    have first: "segment_permuted b e M m" and sorted: "segment_sorted b (i + 1) (colIndices m)"
      by simp_all
    have lengths_m: "length (colIndices m) = n" "length (values m) = n" "valuesSize m = n"
      using first lengths by (simp_all add: segment_permuted_def)
    have "b \<le> i + 1" and "i + 1 \<le> e"
      using i(1) ie by simp_all
    from Suc.IH [OF rec lengths_m sorted this]
    have "segment_permuted b e m M' \<and> segment_sorted b e (colIndices M')" .
    with first show ?thesis
      using segment_permuted_trans by blast
  qed
qed

text \<open>
  With \<open>end' = 2^64 - 1\<close>, which is what \<open>equals\<close> passes for a row that ends at index 0,
  the test \<open>i <= end\<close> never fails: the outer loop does not return.
\<close>

lemma sort_outer_unbounded:
  "i < 18446744073709551616 \<Longrightarrow>
     sort_outer passes fuel oob b 18446744073709551615 i M \<noteq> Some M'"
proof (induction passes arbitrary: i M)
  case 0
  then show ?case by simp
next
  case (Suc passes)
  have "u64 (i + 1) < 18446744073709551616"
    by (simp add: u64_def)
  then have "sort_outer passes fuel oob b 18446744073709551615 (u64 (i + 1)) m \<noteq> Some M'" for m
    by (rule Suc.IH)
  then show ?case
    using Suc.prems by (auto simp add: Option.bind_eq_Some_conv)
qed

lemma sort_matrix_sorts:
  assumes "sort_matrix fuel oob M b (u64_sub e 1) = Some M'"
    and "length (colIndices M) = n" and "length (values M) = n" and "valuesSize M = n"
    and "b \<le> e" and "e \<le> n" and "fuel + n \<le> 18446744073709551616"
  shows "segment_permuted b e M M' \<and> segment_sorted b e (colIndices M')"
proof (cases "e = 0")
  case True
  then have "sort_outer fuel fuel oob b 18446744073709551615 b M = Some M'"
    using assms(1) by (simp add: sort_matrix_def u64_sub_zero_Suc)
  moreover have "b < 18446744073709551616"
    using assms(5) True by simp
  ultimately show ?thesis
    using sort_outer_unbounded by blast
next
  case False
  have "fuel \<noteq> 0"
    using assms(1) by (cases fuel) (simp_all add: sort_matrix_def)
  then have "e < 18446744073709551616"
    using assms(6,7) by simp
  with False have e: "1 \<le> e" and "u64_sub e 1 = e - 1"
    by (simp_all add: u64_sub_small)
  then have run: "sort_outer fuel fuel oob b (e - 1) b M = Some M'"
    using assms(1) by (simp add: sort_matrix_def)
  have "segment_sorted b b (colIndices M)"
    by (simp add: segment_sorted_def)
  from sort_outer_sorts [OF run assms(2,3,4) this _ assms(5) e assms(6,7)] show ?thesis
    by simp
qed

section \<open>The equality checker sorts every row\<close>

lemma segment_sorted_map:
  assumes "segment_sorted b e cs"
  shows "sorted (map (\<lambda>k. cs ! k) [b..<e])"
  unfolding sorted_iff_nth_mono
proof (intro allI impI)
  fix i j
  assume "i \<le> j" and "j < length (map (\<lambda>k. cs ! k) [b..<e])"
  then have "b \<le> b + i \<and> b + i \<le> b + j \<and> b + j < e" and "i < e - b" and "j < e - b"
    by auto
  then show "map (\<lambda>k. cs ! k) [b..<e] ! i \<le> map (\<lambda>k. cs ! k) [b..<e] ! j"
    using assms unfolding segment_sorted_def by simp
qed

text \<open>Sorting row \<open>r\<close> leaves the other rows as they are.\<close>

lemma sorted_upto_step:
  assumes before: "sorted_upto M r M1"
    and permuted: "segment_permuted (rowPointers M ! r) (rowPointers M ! (r + 1)) M1 M2"
    and sorted: "segment_sorted (rowPointers M ! r) (rowPointers M ! (r + 1)) (colIndices M2)"
    and r: "r < noRows M"
    and rp: "sorted (rowPointers M)" "length (rowPointers M) = noRows M + 1"
  shows "sorted_upto M (r + 1) M2"
proof -
  let ?rp = "rowPointers M"
  have rp1: "rowPointers M1 = ?rp" and rp2: "rowPointers M2 = ?rp"
    using before permuted by (simp_all add: sorted_upto_def segment_permuted_def)
  have outside: "colIndices M2 ! k = colIndices M1 ! k \<and> values M2 ! k = values M1 ! k"
    if "k < ?rp ! r \<or> ?rp ! (r + 1) \<le> k" for k
    using permuted that unfolding segment_permuted_def by blast
  have other: "row_entries M2 i = row_entries M1 i" if i: "i < noRows M" "i \<noteq> r" for i
  proof -
    have "k < ?rp ! r \<or> ?rp ! (r + 1) \<le> k" if k: "?rp ! i \<le> k" "k < ?rp ! (i + 1)" for k
    proof (cases "i < r")
      case True
      then have "?rp ! (i + 1) \<le> ?rp ! r"
        using rp r by (intro sorted_nth_mono) simp_all
      then show ?thesis
        using k by simp
    next
      case False
      then have "?rp ! (r + 1) \<le> ?rp ! i"
        using rp i by (intro sorted_nth_mono) simp_all
      then show ?thesis
        using k by simp
    qed
    then show ?thesis
      unfolding row_entries_def rp1 rp2 using outside by (intro map_cong) simp_all
  qed
  have this_row: "mset (row_entries M2 r) = mset (row_entries M1 r)"
    using permuted unfolding row_entries_def rp1 rp2 segment_permuted_def by simp
  have "mset (row_entries M2 i) = mset (row_entries M i)" if "i < noRows M" for i
  proof -
    have "mset (row_entries M2 i) = mset (row_entries M1 i)"
      using other [OF that] this_row by (cases "i = r") simp_all
    then show ?thesis
      using before that by (simp add: sorted_upto_def)
  qed
  moreover have "sorted (map fst (row_entries M2 i))" if "i < r + 1" for i
  proof (cases "i = r")
    case True
    have "map fst (row_entries M2 r) = map (\<lambda>k. colIndices M2 ! k) [?rp ! r..<?rp ! (r + 1)]"
      unfolding row_entries_def rp2 by simp
    then show ?thesis
      using segment_sorted_map [OF sorted] True by simp
  next
    case False
    then have "i < r"
      using that by simp
    then have "row_entries M2 i = row_entries M1 i" and "sorted (map fst (row_entries M1 i))"
      using other [of i] r before by (simp_all add: sorted_upto_def)
    then show ?thesis
      by simp
  qed
  ultimately show ?thesis
    using before permuted unfolding sorted_upto_def segment_permuted_def by simp
qed

lemma sort_row_sorted_upto:
  assumes valid: "valid_csr M" and before: "sorted_upto M r M1" and r: "r < noRows M"
    and fuel: "fuel + valuesSize M \<le> 18446744073709551616"
    and run: "sort_matrix fuel oob M1 (rowPointers M ! r) (u64_sub (rowPointers M ! (r + 1)) 1)
                = Some M2"
  shows "sorted_upto M (r + 1) M2"
proof -
  have lengths: "length (colIndices M1) = valuesSize M" "length (values M1) = valuesSize M"
    "valuesSize M1 = valuesSize M"
    using before valid_csr_facts(1,2) [OF valid] by (simp_all add: sorted_upto_def)
  note bounds = valid_row_bounds [OF valid r]
  from sort_matrix_sorts [OF run lengths bounds fuel]
  have "segment_permuted (rowPointers M ! r) (rowPointers M ! (r + 1)) M1 M2"
    and "segment_sorted (rowPointers M ! r) (rowPointers M ! (r + 1)) (colIndices M2)"
    by simp_all
  with before show ?thesis
    using r valid_csr_facts(5,3) [OF valid] by (rule sorted_upto_step)
qed

lemma sorted_upto_refl: "sorted_upto M 0 M"
  by (simp add: sorted_upto_def)

text \<open>The loop of \<open>equals\<close> over the rows.\<close>

lemma equals_rows_sorted_upto:
  assumes valid: "valid_csr matrix_a" "valid_csr matrix_b"
    and rows: "noRows matrix_b = noRows matrix_a"
    and fuel: "fuel + valuesSize matrix_a \<le> 18446744073709551616"
      "fuel + valuesSize matrix_b \<le> 18446744073709551616"
    and run: "for_loop [0..<noRows matrix_a]
          (\<lambda>i (a, b). do {
             rowBegA \<leftarrow> rd (rowPointers a) i;
             pa \<leftarrow> rd (rowPointers a) (i + 1);
             rowBegB \<leftarrow> rd (rowPointers b) i;
             pb \<leftarrow> rd (rowPointers b) (i + 1);
             a' \<leftarrow> sort_matrix fuel oob_a a rowBegA (u64_sub pa 1);
             b' \<leftarrow> sort_matrix fuel oob_b b rowBegB (u64_sub pb 1);
             Some (a', b') })
          (matrix_a, matrix_b) = Some (a', b')"
  shows "sorted_upto matrix_a (noRows matrix_a) a' \<and> sorted_upto matrix_b (noRows matrix_b) b'"
proof -
  let ?P = "\<lambda>r (x, y). sorted_upto matrix_a r x \<and> sorted_upto matrix_b r y"
  have "?P (noRows matrix_a) (a', b')"
  proof (rule for_loop_upt_preserves [OF run, where P = ?P])
    show "?P 0 (matrix_a, matrix_b)"
      by (simp add: sorted_upto_refl)
    show "0 \<le> noRows matrix_a"
      by simp
  next
    fix r t t'
    assume r: "r < noRows matrix_a" and before: "?P r t"
      and body: "(case t of (a, b) \<Rightarrow> do {
             rowBegA \<leftarrow> rd (rowPointers a) r;
             pa \<leftarrow> rd (rowPointers a) (r + 1);
             rowBegB \<leftarrow> rd (rowPointers b) r;
             pb \<leftarrow> rd (rowPointers b) (r + 1);
             a' \<leftarrow> sort_matrix fuel oob_a a rowBegA (u64_sub pa 1);
             b' \<leftarrow> sort_matrix fuel oob_b b rowBegB (u64_sub pb 1);
             Some (a', b') }) = Some t'"
    obtain x y where t: "t = (x, y)" by (cases t)
    obtain x' y' where t': "t' = (x', y')" by (cases t')
    have x: "sorted_upto matrix_a r x" and y: "sorted_upto matrix_b r y"
      using before t by simp_all
    then have rp: "rowPointers x = rowPointers matrix_a" "rowPointers y = rowPointers matrix_b"
      by (simp_all add: sorted_upto_def)
    from body have "sort_matrix fuel oob_a x (rowPointers matrix_a ! r)
                      (u64_sub (rowPointers matrix_a ! (r + 1)) 1) = Some x'"
      and "sort_matrix fuel oob_b y (rowPointers matrix_b ! r)
                      (u64_sub (rowPointers matrix_b ! (r + 1)) 1) = Some y'"
      unfolding t t'
      by (auto simp add: rd_def rp Option.bind_eq_Some_conv split: if_splits)
    then have "sorted_upto matrix_a (r + 1) x'" and "sorted_upto matrix_b (r + 1) y'"
      using sort_row_sorted_upto [OF valid(1) x r fuel(1)]
        sort_row_sorted_upto [OF valid(2) y _ fuel(2)] r rows by simp_all
    then show "?P (Suc r) t'"
      using t' by simp
  qed
  then show ?thesis
    using rows by simp
qed

lemma sorted_upto_rows:
  assumes "sorted_upto M (noRows M) M'"
  shows "list_all (\<lambda>i. mset (row_entries M' i) = mset (row_entries M i)) [0..<noRows M]"
    and "rows_sorted M'"
  using assms by (simp_all add: sorted_upto_def rows_sorted_def list_all_iff)

section \<open>When the equality checker returns\<close>

text \<open>
  The scan below the array ends at a cell that holds 0, when there are passes enough to
  reach it.
\<close>

lemma scan_below_array_returns:
  assumes "\<exists>k<K. oob (j - k) = 0" and "K \<le> fuel"
    and "length (colIndices M) = n" and "valuesSize M = n"
    and "n + K \<le> j + 1" and "j < 18446744073709551616"
  shows "sort_inner fuel oob 0 col cur j M = Some M"
  using assms(1,2,5,6)
proof (induction K arbitrary: fuel cur j)
  case 0
  then show ?case by simp
next
  case (Suc K)
  from Suc.prems(2) obtain f where fuel: "fuel = Suc f" and f: "K \<le> f"
    by (cases fuel) simp_all
  have j: "n \<le> j"
    using Suc.prems(3) by simp
  then have read: "rd_oob oob (colIndices M) j = oob j"
    using assms(3) by (simp add: rd_oob_def)
  show ?case
  proof (cases "col < oob j")
    case False
    then show ?thesis
      unfolding fuel using read by simp
  next
    case True
    from Suc.prems(1) obtain k where k: "k < Suc K" "oob (j - k) = 0"
      by blast
    with True have "k \<noteq> 0"
      by (cases k) auto
    have "k \<le> j"
      using k(1) Suc.prems(3) by simp
    then have eq: "(j - 1) - (k - 1) = j - k" and less: "k - 1 < K" and "1 \<le> j"
      using \<open>k \<noteq> 0\<close> k(1) by arith+
    have "oob ((j - 1) - (k - 1)) = 0"
      unfolding eq by (rule k(2))
    with less have ends: "\<exists>k<K. oob ((j - 1) - k) = 0"
      by blast
    have swaps: "swap_cols (colIndices M) (valuesSize M) cur j = Some (colIndices M)"
      "swap_values (values M) (valuesSize M) cur j = Some (values M)"
      using j assms(4) by (simp_all add: swap_cols_def swap_values_def)
    have prev: "u64_sub j 1 = j - 1"
      using \<open>1 \<le> j\<close> Suc.prems(4) by (intro u64_sub_small) simp_all
    have "n + K \<le> (j - 1) + 1" and "j - 1 < 18446744073709551616"
      using Suc.prems(3,4) by simp_all
    from Suc.IH [OF ends f this] have "sort_inner f oob 0 col j (j - 1) M = Some M" .
    then show ?thesis
      unfolding fuel using True read swaps prev by simp
  qed
qed

lemma sort_inner_returns:
  assumes "length (colIndices M) = n" and "length (values M) = n" and "valuesSize M = n"
    and "b \<le> cur" and "cur < n" and "cur - b + K < fuel"
    and "\<exists>k<K. oob (18446744073709551615 - k) = 0" and "n + K \<le> 18446744073709551616"
  shows "\<exists>M'. sort_inner fuel oob b col cur (u64_sub cur 1) M = Some M'"
  using assms(1-6)
proof (induction fuel arbitrary: cur M)
  case 0
  then show ?case by simp
next
  case (Suc f)
  note lengths = Suc.prems(1,2,3) and cur = Suc.prems(4,5) and fuel = Suc.prems(6)
  show ?case
  proof (cases "cur = 0")
    case True
    then have "b = 0" and j: "u64_sub cur 1 = 18446744073709551615"
      using cur(1) by (simp_all add: u64_sub_zero_Suc)
    have "K \<le> Suc f"
      using fuel by simp
    from scan_below_array_returns [OF assms(7) this lengths(1,3)]
    have "sort_inner (Suc f) oob 0 col cur 18446744073709551615 M = Some M"
      using assms(8) by simp
    then show ?thesis
      unfolding j \<open>b = 0\<close> by blast
  next
    case False
    have "cur < 18446744073709551616"
      using cur(2) assms(8) by simp
    with False have j: "u64_sub cur 1 = cur - 1"
      by (intro u64_sub_small) simp_all
    have below: "cur - 1 < n"
      using cur(2) by arith
    then have read: "rd_oob oob (colIndices M) (cur - 1) = colIndices M ! (cur - 1)"
      using lengths by (simp add: rd_oob_def)
    show ?thesis
    proof (cases "b \<le> cur - 1 \<and> col < colIndices M ! (cur - 1)")
      case stays: False
      then have "sort_inner (Suc f) oob b col cur (cur - 1) M = Some M"
        using read by auto
      then show ?thesis
        unfolding j by blast
    next
      case moves: True
      let ?cs = "(colIndices M)[cur - 1 := colIndices M ! cur, cur := colIndices M ! (cur - 1)]"
      let ?vs = "(values M)[cur - 1 := values M ! cur, cur := values M ! (cur - 1)]"
      let ?M1 = "M\<lparr>colIndices := ?cs, values := ?vs\<rparr>"
      have swaps: "swap_cols (colIndices M) (valuesSize M) cur (cur - 1) = Some ?cs"
        "swap_values (values M) (valuesSize M) cur (cur - 1) = Some ?vs"
        using lengths cur(2) below by (simp_all add: swap_cols_def swap_values_def rd_def wr_def)
      have "b \<le> cur - 1"
        using moves by simp
      moreover from this fuel False have "cur - 1 - b + K < f"
        by arith
      ultimately have "b \<le> cur - 1" and "cur - 1 - b + K < f"
        by simp_all
      with below lengths
      have "\<exists>M'. sort_inner f oob b col (cur - 1) (u64_sub (cur - 1) 1) ?M1 = Some M'"
        by (intro Suc.IH) simp_all
      then show ?thesis
        unfolding j using moves read swaps by simp
    qed
  qed
qed

lemma sort_outer_returns:
  assumes "length (colIndices M) = n" and "length (values M) = n" and "valuesSize M = n"
    and "b \<le> i" and "i \<le> e" and "e - i < passes"
    and "1 \<le> e" and "e \<le> n" and "n + K < fuel"
    and "\<exists>k<K. oob (18446744073709551615 - k) = 0" and "n + K \<le> 18446744073709551616"
    and "n < 18446744073709551616"
  shows "\<exists>M'. sort_outer passes fuel oob b (e - 1) i M = Some M'"
  using assms(1-6)
proof (induction passes arbitrary: i M)
  case 0
  then show ?case by simp
next
  case (Suc passes)
  note lengths = Suc.prems(1,2,3) and i = Suc.prems(4,5) and passes = Suc.prems(6)
  show ?case
  proof (cases "i \<le> e - 1")
    case False
    then show ?thesis by simp
  next
    case True
    then have ie: "i < e" and "i < n"
      using assms(7,8) by simp_all
    then have next_i: "u64 (i + 1) = i + 1"
      using assms(12) by (intro u64_small) simp
    have "i - b + K < fuel"
      using \<open>i < n\<close> assms(9) by simp
    from sort_inner_returns [OF lengths i(1) \<open>i < n\<close> this assms(10,11)]
    obtain m where inner: "sort_inner fuel oob b (colIndices M ! i) i (u64_sub i 1) M = Some m"
      by blast
    then have "reordered M m"
      by (rule sort_inner_reordered)
    then have lengths_m: "length (colIndices m) = n" "length (values m) = n" "valuesSize m = n"
      using lengths by (simp_all add: reordered_def)
    have "b \<le> i + 1" and "i + 1 \<le> e" and "e - (i + 1) < passes"
      using i(1) ie passes by simp_all
    from Suc.IH [OF lengths_m this]
    obtain M' where "sort_outer passes fuel oob b (e - 1) (i + 1) m = Some M'"
      by blast
    then show ?thesis
      using True \<open>i < n\<close> lengths inner next_i by (simp add: rd_def)
  qed
qed

lemma sort_matrix_returns:
  assumes "length (colIndices M) = n" and "length (values M) = n" and "valuesSize M = n"
    and "b \<le> e" and "1 \<le> e" and "e \<le> n" and "n + K < fuel"
    and "\<exists>k<K. oob (18446744073709551615 - k) = 0" and "fuel + n \<le> 18446744073709551616"
  shows "\<exists>M'. sort_matrix fuel oob M b (u64_sub e 1) = Some M'"
proof -
  have n: "n < 18446744073709551616" "n + K \<le> 18446744073709551616"
    using assms(7,9) by simp_all
  then have "u64_sub e 1 = e - 1"
    using assms(5,6) by (intro u64_sub_small) simp_all
  moreover have "e - b < fuel"
    using assms(6,7) by simp
  from sort_outer_returns [OF assms(1,2,3) order_refl assms(4) this assms(5,6,7,8) n(2,1)]
  have "\<exists>M'. sort_outer fuel fuel oob b (e - 1) b M = Some M'" .
  ultimately show ?thesis
    by (simp add: sort_matrix_def)
qed

lemma entries_equal_returns:
  assumes "\<forall>i\<in>set xs. i < length (colIndices a) \<and> i < length (colIndices b) \<and>
             i < length (values a) \<and> i < length (values b)"
  shows "\<exists>e. entries_equal xs a b = Some e"
  using assms by (induction xs) (auto simp add: rd_def)

lemma row_pointers_equal_returns:
  assumes "\<forall>i\<in>set xs. i < length (rowPointers a) \<and> i < length (rowPointers b)"
  shows "\<exists>e. row_pointers_equal xs a b = Some e"
  using assms by (induction xs) (auto simp add: rd_def)

lemma scan_ends_iff: "scan_ends oob K \<longleftrightarrow> (\<exists>k<K. oob (18446744073709551615 - k) = 0)"
  by (auto simp add: scan_ends_def list_ex_iff)

lemma equals_returns:
  assumes valid: "valid_csr matrix_a" "valid_csr matrix_b"
    and shape: "same_shape matrix_a matrix_b"
    and first: "noRows matrix_a = 0 \<or> 0 < rowPointers matrix_a ! 1"
      "noRows matrix_b = 0 \<or> 0 < rowPointers matrix_b ! 1"
    and ends: "scan_ends oob_a K" "scan_ends oob_b K"
    and fuel: "valuesSize matrix_a + K < fuel" "fuel + valuesSize matrix_a \<le> 18446744073709551616"
  shows "\<exists>result a' b'. equals fuel oob_a oob_b matrix_a matrix_b = Some (result, a', b')"
proof -
  let ?body = "\<lambda>i (a, b). do {
             rowBegA \<leftarrow> rd (rowPointers a) i;
             pa \<leftarrow> rd (rowPointers a) (i + 1);
             rowBegB \<leftarrow> rd (rowPointers b) i;
             pb \<leftarrow> rd (rowPointers b) (i + 1);
             a' \<leftarrow> sort_matrix fuel oob_a a rowBegA (u64_sub pa 1);
             b' \<leftarrow> sort_matrix fuel oob_b b rowBegB (u64_sub pb 1);
             Some (a', b') }"
  let ?P = "\<lambda>(r :: nat) (x, y). reordered matrix_a x \<and> reordered matrix_b y"
  have same: "noRows matrix_b = noRows matrix_a" "valuesSize matrix_b = valuesSize matrix_a"
    "rowPointersSize matrix_b = rowPointersSize matrix_a"
    using shape by (simp_all add: same_shape_def)
  have sorted_row: "\<exists>M'. sort_matrix fuel oob x (rowPointers M ! r)
                           (u64_sub (rowPointers M ! (r + 1)) 1) = Some M' \<and> reordered M M'"
    if M: "valid_csr M" "reordered M x" "noRows M = 0 \<or> 0 < rowPointers M ! 1"
      and r: "r < noRows M" and oob: "scan_ends oob K"
      and size: "valuesSize M = valuesSize matrix_a"
    for M x :: "'a Matrix" and r oob
  proof -
    have lengths: "length (colIndices x) = valuesSize M" "length (values x) = valuesSize M"
      "valuesSize x = valuesSize M"
      using M(2) valid_csr_facts(1,2) [OF M(1)] by (simp_all add: reordered_def)
    note bounds = valid_row_bounds [OF M(1) r]
    have "rowPointers M ! 1 \<le> rowPointers M ! (r + 1)"
      using valid_csr_facts(5,3) [OF M(1)] r by (intro sorted_nth_mono) simp_all
    then have stored: "1 \<le> rowPointers M ! (r + 1)"
      using M(3) r by simp
    from sort_matrix_returns [OF lengths bounds(1) stored bounds(2), of K fuel oob]
    obtain M' where run: "sort_matrix fuel oob x (rowPointers M ! r)
                            (u64_sub (rowPointers M ! (r + 1)) 1) = Some M'"
      using fuel oob size by (auto simp add: scan_ends_iff)
    then have "reordered x M'"
      by (rule sort_matrix_reordered)
    with M(2) have "reordered M M'"
      by (rule reordered_trans)
    with run show ?thesis
      by blast
  qed
  have "\<exists>s'. for_loop [0..<noRows matrix_a] ?body (matrix_a, matrix_b) = Some s'
          \<and> ?P (noRows matrix_a) s'"
  proof (rule for_loop_invariant [where P = ?P])
    show "?P 0 (matrix_a, matrix_b)"
      by (simp add: reordered_refl)
    show "0 \<le> noRows matrix_a"
      by simp
  next
    fix r t
    assume r: "r < noRows matrix_a" and before: "?P r t"
    obtain x y where t: "t = (x, y)" by (cases t)
    have x: "reordered matrix_a x" and y: "reordered matrix_b y"
      using before t by simp_all
    then have rp: "rowPointers x = rowPointers matrix_a" "rowPointers y = rowPointers matrix_b"
      by (simp_all add: reordered_def)
    have in_range: "r < length (rowPointers matrix_a)" "r + 1 < length (rowPointers matrix_a)"
      "r < length (rowPointers matrix_b)" "r + 1 < length (rowPointers matrix_b)"
      using r same valid_csr_facts(3) [OF valid(1)] valid_csr_facts(3) [OF valid(2)]
      by simp_all
    from sorted_row [OF valid(1) x first(1) r ends(1)] obtain x'
      where x': "sort_matrix fuel oob_a x (rowPointers matrix_a ! r)
                   (u64_sub (rowPointers matrix_a ! (r + 1)) 1) = Some x'"
        "reordered matrix_a x'"
      by auto
    from sorted_row [OF valid(2) y first(2) _ ends(2)] r same obtain y'
      where y': "sort_matrix fuel oob_b y (rowPointers matrix_b ! r)
                   (u64_sub (rowPointers matrix_b ! (r + 1)) 1) = Some y'"
        "reordered matrix_b y'"
      by auto
    have "?body r t = Some (x', y')"
      unfolding t using in_range x'(1) y'(1) by (simp add: rd_def rp)
    then show "\<exists>t'. ?body r t = Some t' \<and> ?P (Suc r) t'"
      using x'(2) y'(2) by simp
  qed
  then obtain a1 b1
    where loop: "for_loop [0..<noRows matrix_a] ?body (matrix_a, matrix_b) = Some (a1, b1)"
      and a1: "reordered matrix_a a1" and b1: "reordered matrix_b b1"
    by auto
  have "\<forall>i\<in>set [0..<valuesSize a1]. i < length (colIndices a1) \<and> i < length (colIndices b1) \<and>
          i < length (values a1) \<and> i < length (values b1)"
    using a1 b1 same valid_csr_facts(1,2) [OF valid(1)] valid_csr_facts(1,2) [OF valid(2)]
    by (simp add: reordered_def)
  from entries_equal_returns [OF this]
  obtain e where e: "entries_equal [0..<valuesSize a1] a1 b1 = Some e"
    by blast
  have sizes: "rowPointersSize matrix_a = noRows matrix_a + 1"
    "rowPointersSize matrix_b = noRows matrix_b + 1"
    using valid by (simp_all add: valid_csr_def)
  have "\<forall>i\<in>set [0..<rowPointersSize a1]. i < length (rowPointers a1) \<and> i < length (rowPointers b1)"
    using a1 b1 same sizes valid_csr_facts(3) [OF valid(1)] valid_csr_facts(3) [OF valid(2)]
    by (simp add: reordered_def)
  from row_pointers_equal_returns [OF this]
  obtain p where p: "row_pointers_equal [0..<rowPointersSize a1] a1 b1 = Some p"
    by blast
  have "noRows matrix_a + 1 < 18446744073709551616"
    using valid_csr_facts(10) [OF valid(1)] by simp
  then have "u64_sub (rowPointersSize matrix_a) 1 = noRows matrix_a"
    unfolding sizes by (simp add: u64_sub_small)
  then have "equals fuel oob_a oob_b matrix_a matrix_b
               = Some (if \<not> e then 0 else if p then 1 else 0, a1, b1)"
    using shape loop e p by (simp add: equals_def same_shape_def)
  then show ?thesis
    by blast
qed

text \<open>
  Claim C9, as amended. \<open>equals\<close> sorts the entries of each row of both argument matrices
  in place, by ascending column. For every pair of valid CSR matrices, whatever the memory
  outside the arrays holds, and for every bound \<open>fuel\<close> on the passes of a loop of
  \<open>sort_matrix\<close> that is at most \<open>2^64\<close> less the number of stored values (with more
  passes the wrapped index of the scan below the array would have gone through every index
  outside the array and come back into it from above):

  \<^item> whenever \<open>equals\<close> returns, each argument has its dimensions, its size fields and its
    row pointers unchanged and its arrays of the same lengths, and every row holds the same
    (column, value) pairs as before, counted with their multiplicity: entries change their
    place within their row only;
  \<^item> if the four size fields of the two matrices agree, every row of both arguments is then
    sorted by column; if they differ, \<open>equals\<close> returns 0 and both arguments are as they were;
  \<^item> \<open>equals\<close> does return when the size fields differ, and when they agree provided that
    the first row of each matrix stores an entry (or there is no row), that one of the \<open>K\<close>
    cells below each of the two \<open>colIndices\<close> arrays holds 0, and that the bound on the
    passes exceeds the number of stored values plus \<open>K\<close>.
\<close>

theorem equals_sorts_rows_in_place:
  assumes "valid_csr matrix_a" and "valid_csr matrix_b"
    and "fuel + valuesSize matrix_a \<le> 18446744073709551616"
    and "fuel + valuesSize matrix_b \<le> 18446744073709551616"
  shows "(\<forall>result a' b'.
            equals fuel oob_a oob_b matrix_a matrix_b = Some (result, a', b') \<longrightarrow>
            rows_reordered matrix_a a' \<and> rows_reordered matrix_b b' \<and>
            (if same_shape matrix_a matrix_b then rows_sorted a' \<and> rows_sorted b'
             else a' = matrix_a \<and> b' = matrix_b \<and> result = 0)) \<and>
         ((same_shape matrix_a matrix_b \<longrightarrow>
             (noRows matrix_a = 0 \<or> 0 < rowPointers matrix_a ! 1) \<and>
             (noRows matrix_b = 0 \<or> 0 < rowPointers matrix_b ! 1) \<and>
             scan_ends oob_a K \<and> scan_ends oob_b K \<and> valuesSize matrix_a + K < fuel) \<longrightarrow>
          (\<exists>result a' b'. equals fuel oob_a oob_b matrix_a matrix_b = Some (result, a', b')))"
proof -
  have sizes: "rowPointersSize matrix_a = noRows matrix_a + 1"
    using assms(1) by (simp add: valid_csr_def)
  have "noRows matrix_a + 1 < 18446744073709551616"
    using valid_csr_facts(10) [OF assms(1)] by simp
  then have rows: "u64_sub (rowPointersSize matrix_a) 1 = noRows matrix_a"
    unfolding sizes by (simp add: u64_sub_small)
  have frame: "rows_reordered matrix_a a' \<and> rows_reordered matrix_b b' \<and>
            (if same_shape matrix_a matrix_b then rows_sorted a' \<and> rows_sorted b'
             else a' = matrix_a \<and> b' = matrix_b \<and> result = 0)"
    if run: "equals fuel oob_a oob_b matrix_a matrix_b = Some (result, a', b')"
    for result a' b'
  proof (cases "same_shape matrix_a matrix_b")
    case False
    then have "a' = matrix_a" "b' = matrix_b" "result = 0"
      using run by (auto simp add: equals_def same_shape_def)
    then show ?thesis
      using False by (simp add: rows_reordered_def reordered_refl list_all_iff)
  next
    case True
    then have "for_loop [0..<noRows matrix_a]
          (\<lambda>i (a, b). do {
             rowBegA \<leftarrow> rd (rowPointers a) i;
             pa \<leftarrow> rd (rowPointers a) (i + 1);
             rowBegB \<leftarrow> rd (rowPointers b) i;
             pb \<leftarrow> rd (rowPointers b) (i + 1);
             a' \<leftarrow> sort_matrix fuel oob_a a rowBegA (u64_sub pa 1);
             b' \<leftarrow> sort_matrix fuel oob_b b rowBegB (u64_sub pb 1);
             Some (a', b') })
          (matrix_a, matrix_b) = Some (a', b')"
      using run unfolding rows [symmetric]
      by (auto simp add: equals_def same_shape_def Option.bind_eq_Some_conv split: if_splits)
    moreover have "noRows matrix_b = noRows matrix_a"
      using True by (simp add: same_shape_def)
    ultimately have a: "sorted_upto matrix_a (noRows matrix_a) a'"
      and b: "sorted_upto matrix_b (noRows matrix_b) b'"
      using equals_rows_sorted_upto [OF assms(1,2) _ assms(3,4)] by simp_all
    show ?thesis
      using sorted_upto_rows [OF a] sorted_upto_rows [OF b] equals_reordered [OF run] True
      by (simp add: rows_reordered_def)
  qed
  have returns: "\<exists>result a' b'. equals fuel oob_a oob_b matrix_a matrix_b = Some (result, a', b')"
    if "same_shape matrix_a matrix_b \<longrightarrow>
             (noRows matrix_a = 0 \<or> 0 < rowPointers matrix_a ! 1) \<and>
             (noRows matrix_b = 0 \<or> 0 < rowPointers matrix_b ! 1) \<and>
             scan_ends oob_a K \<and> scan_ends oob_b K \<and> valuesSize matrix_a + K < fuel"
  proof (cases "same_shape matrix_a matrix_b")
    case False
    then show ?thesis
      by (auto simp add: equals_def same_shape_def)
  next
    case True
    with that show ?thesis
      using equals_returns [OF assms(1,2) True _ _ _ _ _ assms(3)] by blast
  qed
  from frame returns show ?thesis
    by blast
qed

theorem equals_sorts_rows_in_place_witness:
  "valid_csr unsorted_M \<and> valid_csr sorted_M \<and> same_shape unsorted_M sorted_M \<and>
   0 < rowPointers unsorted_M ! 1 \<and> 0 < rowPointers sorted_M ! 1 \<and>
   scan_ends zero_memory 1 \<and>
   equals 10 zero_memory zero_memory unsorted_M sorted_M = Some (1, sorted_M, sorted_M) \<and>
   rows_reordered unsorted_M sorted_M \<and> rows_sorted sorted_M \<and> \<not> rows_sorted unsorted_M \<and>
   (\<exists>result a' b'. equals 10 zero_memory zero_memory unsorted_M sorted_M = Some (result, a', b'))"
proof -
  have valid: "valid_csr unsorted_M" "valid_csr sorted_M"
    by (simp_all add: valid_csr_def compact_csr_def unsorted_M_def sorted_M_def)
  have shape: "same_shape unsorted_M sorted_M"
    by (simp add: same_shape_def unsorted_M_def sorted_M_def)
  have first: "0 < rowPointers unsorted_M ! 1" "0 < rowPointers sorted_M ! 1"
    by (simp_all add: unsorted_M_def sorted_M_def)
  have ends: "scan_ends zero_memory 1"
    by (simp add: scan_ends_def zero_memory_def)
  have fuel: "10 + valuesSize unsorted_M \<le> 18446744073709551616"
    "10 + valuesSize sorted_M \<le> 18446744073709551616" "valuesSize unsorted_M + 1 < 10"
    by (simp_all add: unsorted_M_def sorted_M_def)
  have run: "equals 10 zero_memory zero_memory unsorted_M sorted_M = Some (1, sorted_M, sorted_M)"
    by (simp add: equals_def sort_matrix_def sort_outer_eval sort_inner_eval swap_cols_def
          swap_values_def rd_oob_def zero_memory_def u64_sub_zero_Suc eval_basics unsorted_M_def
          sorted_M_def)
  have unsorted: "\<not> rows_sorted unsorted_M"
    by (simp add: rows_sorted_def row_entries_def unsorted_M_def upt_eval)
  note sorts = equals_sorts_rows_in_place [OF valid fuel(1,2), of zero_memory zero_memory 1]
  from sorts run shape have "rows_reordered unsorted_M sorted_M" and "rows_sorted sorted_M"
    by auto
  moreover from sorts shape first ends fuel(3)
  have "\<exists>result a' b'. equals 10 zero_memory zero_memory unsorted_M sorted_M = Some (result, a', b')"
    by blast
  ultimately show ?thesis
    using valid shape first ends run unsorted by simp
qed

end
